theory Spec2Isabelle
  imports Complex_Main "HOL-Library.AList" "HOL-Library.Sublist"
begin

section \<open>Python text primitives used by \<open>minio_storage.py\<close>\<close>

text \<open>
  Text is a \<open>string\<close>; a character stands for a code point below 256.  The bytes the
  store holds for a CSV object are represented by the text they are the UTF-8 encoding of,
  so \<open>encode("utf-8")\<close> is not a separate step and \<open>tell() > 0\<close> is non-emptiness.
\<close>

definition newline :: char where
  "newline = CHR 0x0A"

definition space_chars :: "char list" where
  "space_chars = [CHR 0x09, CHR 0x0A, CHR 0x0B, CHR 0x0C, CHR 0x0D,
                  CHR 0x1C, CHR 0x1D, CHR 0x1E, CHR 0x1F, CHR 0x20, CHR 0x85, CHR 0xA0]"

definition is_space :: "char \<Rightarrow> bool" where
  \<comment> \<open>\<open>str.isspace\<close> on one code point below 256\<close>
  "is_space c = (c \<in> set space_chars)"

definition strip :: "string \<Rightarrow> string" where
  \<comment> \<open>\<open>str.strip()\<close>\<close>
  "strip s = rev (dropWhile is_space (rev (dropWhile is_space s)))"

fun split_on :: "char \<Rightarrow> string \<Rightarrow> string list" where
  \<comment> \<open>\<open>s.split(sep)\<close> for a one-character separator\<close>
  "split_on sep [] = [[]]"
| "split_on sep (c # cs) =
     (if c = sep then [] # split_on sep cs
      else (case split_on sep cs of [] \<Rightarrow> [[c]] | l # ls \<Rightarrow> (c # l) # ls))"

definition split_first :: "char \<Rightarrow> string \<Rightarrow> string list" where
  \<comment> \<open>\<open>s.split(sep, 1)\<close>\<close>
  "split_first sep s =
     (if sep \<in> set s
      then [takeWhile (\<lambda>c. c \<noteq> sep) s, tl (dropWhile (\<lambda>c. c \<noteq> sep) s)]
      else [s])"

fun contains :: "string \<Rightarrow> string \<Rightarrow> bool" where
  \<comment> \<open>\<open>sub in s\<close>\<close>
  "contains sub [] = (sub = [])"
| "contains sub (c # cs) = (prefix sub (c # cs) \<or> contains sub cs)"

function str_replace :: "string \<Rightarrow> string \<Rightarrow> string \<Rightarrow> string" where
  \<comment> \<open>\<open>s.replace(old, new)\<close> for a non-empty \<open>old\<close>: leftmost matches, not rescanned\<close>
  "str_replace old new [] = []"
| "str_replace old new (c # cs) =
     (if old \<noteq> [] \<and> prefix old (c # cs)
      then new @ str_replace old new (drop (length old) (c # cs))
      else c # str_replace old new cs)"
  by pat_completeness auto
termination
  by (relation "measure (\<lambda>(old, new, s). length s)") (auto simp: Suc_le_eq)

function str_nat :: "nat \<Rightarrow> string" where
  "str_nat n =
     (if n < 10 then [''0123456789'' ! n]
      else str_nat (n div 10) @ [''0123456789'' ! (n mod 10)])"
  by pat_completeness auto
termination
  by (relation "measure id") auto

definition str_int :: "int \<Rightarrow> string" where
  \<comment> \<open>the decimal text an f-string gives for an integer\<close>
  "str_int i = (if i < 0 then CHR ''-'' # str_nat (nat (- i)) else str_nat (nat i))"

definition endswith :: "string \<Rightarrow> string \<Rightarrow> bool" where
  "endswith s suf = suffix suf s"


section \<open>Configuration, manager and object store\<close>

datatype error =
    ValueError string
  | ImportError string
  | IndexError
  | TypeError
  | OverflowError
  | StructError
  | S3Error string

text \<open>
  A \<open>datetime\<close> is its distance from 0001-01-01T00:00:00 in microseconds, together with
  whether it carries a time zone: \<open>Aware\<close> holds the UTC instant, \<open>Naive\<close> a
  wall-clock reading.  The largest datetime is 9999-12-31T23:59:59.999999.  Ordering a
  naive against an aware datetime raises \<open>TypeError\<close>; a \<open>timedelta\<close> holds at
  most 999999999 days either way, and arithmetic that leaves the range of datetimes
  raises \<open>OverflowError\<close>.
\<close>

datatype py_datetime = Naive int | Aware int

definition datetime_max :: int where
  "datetime_max = 315537897599999999"

fun datetime_lt :: "py_datetime \<Rightarrow> py_datetime \<Rightarrow> error + bool" where
  \<comment> \<open>\<open>a < b\<close>\<close>
  "datetime_lt (Naive a) (Naive b) = Inr (a < b)"
| "datetime_lt (Aware a) (Aware b) = Inr (a < b)"
| "datetime_lt a b = Inl TypeError"

definition timedelta_seconds :: "int \<Rightarrow> error + int" where
  \<comment> \<open>\<open>timedelta(seconds=n)\<close>, in microseconds\<close>
  "timedelta_seconds n =
     (if - 999999999 \<le> n div 86400 \<and> n div 86400 \<le> 999999999
      then Inr (n * 1000000) else Inl OverflowError)"

fun datetime_sub :: "py_datetime \<Rightarrow> int \<Rightarrow> error + py_datetime" where
  \<comment> \<open>\<open>d - delta\<close> for a timedelta of that many microseconds\<close>
  "datetime_sub (Naive t) delta =
     (if 0 \<le> t - delta \<and> t - delta \<le> datetime_max then Inr (Naive (t - delta))
      else Inl OverflowError)"
| "datetime_sub (Aware t) delta =
     (if 0 \<le> t - delta \<and> t - delta \<le> datetime_max then Inr (Aware (t - delta))
      else Inl OverflowError)"

text \<open>
  \<open>MINIO_EXPORT_CONFIG\<close>: a dictionary with the keys of the configuration example; an
  absent key is \<open>None\<close>, so Python's \<open>{}\<close> is \<open>empty_config\<close>.
\<close>

record minio_config =
  cfg_enabled :: "bool option"
  cfg_endpoint :: "string option"
  cfg_access_key :: "string option"
  cfg_secret_key :: "string option"
  cfg_secure :: "bool option"
  cfg_region :: "string option"
  cfg_bucket_name :: "string option"
  cfg_max_rows_per_file :: "int option"
  cfg_file_retention_seconds :: "int option"

definition empty_config :: minio_config where
  "empty_config =
     \<lparr>cfg_enabled = None, cfg_endpoint = None, cfg_access_key = None,
      cfg_secret_key = None, cfg_secure = None, cfg_region = None,
      cfg_bucket_name = None, cfg_max_rows_per_file = None,
      cfg_file_retention_seconds = None\<rparr>"

record minio_client =
  cl_endpoint :: string
  cl_access_key :: string
  cl_secret_key :: string
  cl_secure :: bool
  cl_region :: "string option"

record manager =
  m_client :: "minio_client option"
  m_config :: minio_config

definition new_manager :: manager where
  \<comment> \<open>\<open>MinIOStorageManager.__init__\<close>\<close>
  "new_manager = \<lparr>m_client = None, m_config = empty_config\<rparr>"

text \<open>
  A stored payload is either CSV text or a ZIP archive, the archive represented by the
  entry list it decompresses to.  The store is the object table of the configured bucket,
  in enumeration order, together with the log of the calls made on the client.
\<close>

datatype blob = Bytes string | Zip "(string \<times> blob) list"

record stored_object =
  content :: blob
  content_type :: string
  last_modified :: "py_datetime option"

datatype call = Put string blob | Get string | Remove string | List string

record store =
  objects :: "(string \<times> stored_object) list"
  trace :: "call list"

text \<open>
  What the code cannot see from inside: whether the \<open>minio\<close> package imports, the
  application's \<open>MINIO_EXPORT_CONFIG\<close> entry, which client calls raise, and the time the
  server stamps on an uploaded object.
\<close>

record env =
  minio_installed :: bool
  app_config :: "minio_config option"
  io_fails :: "call \<Rightarrow> bool"
  server_time :: py_datetime

definition put_object ::
  "env \<Rightarrow> store \<Rightarrow> string \<Rightarrow> blob \<Rightarrow> string \<Rightarrow> error option \<times> store" where
  "put_object e s name data ctype =
     (let s1 = s\<lparr>trace := trace s @ [Put name data]\<rparr>
      in if io_fails e (Put name data) then (Some (S3Error name), s1)
         else (None, s1\<lparr>objects :=
                 AList.update name
                   \<lparr>content = data, content_type = ctype,
                    last_modified = Some (server_time e)\<rparr> (objects s1)\<rparr>))"

definition get_object :: "env \<Rightarrow> store \<Rightarrow> string \<Rightarrow> (error + blob) \<times> store" where
  "get_object e s name =
     (let s1 = s\<lparr>trace := trace s @ [Get name]\<rparr>
      in if io_fails e (Get name) then (Inl (S3Error name), s1)
         else (case map_of (objects s1) name of
                 None \<Rightarrow> (Inl (S3Error name), s1)
               | Some obj \<Rightarrow> (Inr (content obj), s1)))"

definition remove_object :: "env \<Rightarrow> store \<Rightarrow> string \<Rightarrow> error option \<times> store" where
  "remove_object e s name =
     (let s1 = s\<lparr>trace := trace s @ [Remove name]\<rparr>
      in if io_fails e (Remove name) then (Some (S3Error name), s1)
         else (None, s1\<lparr>objects := AList.delete name (objects s1)\<rparr>))"

definition list_objects ::
  "env \<Rightarrow> store \<Rightarrow> string \<Rightarrow> (error + (string \<times> stored_object) list) \<times> store" where
  "list_objects e s pre =
     (let s1 = s\<lparr>trace := trace s @ [List pre]\<rparr>
      in if io_fails e (List pre) then (Inl (S3Error pre), s1)
         else (Inr (filter (\<lambda>(name, obj). prefix pre name) (objects s1)), s1))"

definition initialize_client :: "env \<Rightarrow> manager \<Rightarrow> (error + minio_client) \<times> manager" where
  \<comment> \<open>\<open>_initialize_client\<close>; ensuring the bucket exists leaves the object table as it is\<close>
  "initialize_client e mgr =
     (case m_client mgr of
        Some c \<Rightarrow> (Inr c, mgr)
      | None \<Rightarrow>
          if \<not> minio_installed e
          then (Inl (ImportError ''minio package is required for MinIO export. Install it with: pip install minio''), mgr)
          else
            let cfg = (case app_config e of None \<Rightarrow> empty_config | Some c \<Rightarrow> c);
                mgr1 = mgr\<lparr>m_config := cfg\<rparr>
            in if \<not> (case cfg_enabled cfg of None \<Rightarrow> False | Some b \<Rightarrow> b)
               then (Inl (ValueError ''MinIO export is not enabled in configuration''), mgr1)
               else
                 let endpoint = (case cfg_endpoint cfg of None \<Rightarrow> ''localhost:9000'' | Some v \<Rightarrow> v);
                     access_key = (case cfg_access_key cfg of None \<Rightarrow> [] | Some v \<Rightarrow> v);
                     secret_key = (case cfg_secret_key cfg of None \<Rightarrow> [] | Some v \<Rightarrow> v);
                     secure = (case cfg_secure cfg of None \<Rightarrow> False | Some v \<Rightarrow> v);
                     region = cfg_region cfg
                 in if access_key = [] \<or> secret_key = []
                    then (Inl (ValueError ''MinIO access_key and secret_key must be configured in MINIO_EXPORT_CONFIG''), mgr1)
                    else
                      let c = \<lparr>cl_endpoint = endpoint, cl_access_key = access_key,
                               cl_secret_key = secret_key, cl_secure = secure,
                               cl_region = region\<rparr>
                      in (Inr c, mgr1\<lparr>m_client := Some c\<rparr>))"

definition get_max_rows_per_file :: "manager \<Rightarrow> int" where
  "get_max_rows_per_file mgr =
     (case cfg_max_rows_per_file (m_config mgr) of None \<Rightarrow> 1000000 | Some v \<Rightarrow> v)"

definition upload_file_streaming ::
  "env \<Rightarrow> manager \<Rightarrow> store \<Rightarrow> blob \<Rightarrow> string \<Rightarrow> error option \<times> manager \<times> store" where
  \<comment> \<open>\<open>_upload_file_streaming\<close>\<close>
  "upload_file_streaming e mgr s file_buffer object_name =
     (case initialize_client e mgr of
        (Inl err, mgr') \<Rightarrow> (Some err, mgr', s)
      | (Inr c, mgr') \<Rightarrow>
          (case put_object e s object_name file_buffer
                  (if endswith object_name ''.csv'' then ''text/csv'' else ''application/zip'') of
             (r, s') \<Rightarrow> (r, mgr', s')))"


section \<open>The retention sweep\<close>

fun sweep ::
  "env \<Rightarrow> py_datetime \<Rightarrow> store \<Rightarrow> int \<Rightarrow> (string \<times> stored_object) list \<Rightarrow>
     (error \<times> store) + (int \<times> store)" where
  \<comment> \<open>the \<open>for obj in objects\<close> loop of \<open>cleanup_old_files\<close>\<close>
  "sweep e cutoff_time s deleted_count [] = Inr (deleted_count, s)"
| "sweep e cutoff_time s deleted_count ((object_name, obj) # objs) =
     (case last_modified obj of
        None \<Rightarrow> sweep e cutoff_time s deleted_count objs
      | Some t \<Rightarrow>
          (case datetime_lt t cutoff_time of
             Inl err \<Rightarrow> Inl (err, s)
           | Inr older \<Rightarrow>
               if older
               then (case remove_object e s object_name of
                       (Some err, s1) \<Rightarrow> Inl (err, s1)
                     | (None, s1) \<Rightarrow> sweep e cutoff_time s1 (deleted_count + 1) objs)
               else sweep e cutoff_time s deleted_count objs))"

definition cleanup_old_files ::
  "env \<Rightarrow> manager \<Rightarrow> store \<Rightarrow> int \<Rightarrow> (error + int) \<times> manager \<times> store" where
  \<comment> \<open>\<open>now\<close> is the reading of \<open>datetime.now()\<close>, which carries no time zone\<close>
  "cleanup_old_files e mgr s now =
     (case initialize_client e mgr of
        (Inl err, mgr') \<Rightarrow> (Inl err, mgr', s)
      | (Inr c, mgr') \<Rightarrow>
          let retention_seconds =
                (case cfg_file_retention_seconds (m_config mgr') of
                   None \<Rightarrow> 604800 | Some v \<Rightarrow> v)
          in (case timedelta_seconds retention_seconds of
                Inl err \<Rightarrow> (Inl err, mgr', s)
              | Inr delta \<Rightarrow>
                  (case datetime_sub (Naive now) delta of
                     Inl err \<Rightarrow> (Inl err, mgr', s)
                   | Inr cutoff_time \<Rightarrow>
                       (case list_objects e s ''exports/'' of
                          (Inl err, s1) \<Rightarrow> (Inl err, mgr', s1)
                        | (Inr objs, s1) \<Rightarrow>
                            (case sweep e cutoff_time s1 0 objs of
                               Inl (err, s2) \<Rightarrow> (Inl err, mgr', s2)
                             | Inr (deleted_count, s2) \<Rightarrow>
                                 (Inr deleted_count, mgr', s2))))))"


section \<open>Streaming a chunk sequence into segments\<close>

record stream_state =
  self_mgr :: manager
  the_store :: store
  uploaded_files :: "string list"
  current_file_buffer :: string
  current_file_rows :: int
  total_rows :: int
  file_index :: int
  header :: "string option"

definition initial_state :: "manager \<Rightarrow> store \<Rightarrow> stream_state" where
  \<comment> \<open>the local variables of \<open>stream_csv_to_minio\<close> before its loop\<close>
  "initial_state mgr s =
     \<lparr>self_mgr = mgr, the_store = s, uploaded_files = [],
      current_file_buffer = [], current_file_rows = 0, total_rows = 0,
      file_index = 1, header = None\<rparr>"

definition finalize_current_file ::
  "env \<Rightarrow> string \<Rightarrow> string \<Rightarrow> stream_state \<Rightarrow> (error \<times> stream_state) + stream_state" where
  "finalize_current_file e filename timestamp st =
     (if length (current_file_buffer st) > 0
      then
        let csv_filename =
              (if length (uploaded_files st) > 0
               then str_replace ''.csv'' [] filename @ ''_'' @ str_int (file_index st) @ ''.csv''
               else filename);
            object_name = ''exports/'' @ timestamp @ ''_'' @ csv_filename
        in (case upload_file_streaming e (self_mgr st) (the_store st)
                   (Bytes (current_file_buffer st)) object_name of
              (Some err, mgr', s') \<Rightarrow> Inl (err, st\<lparr>self_mgr := mgr', the_store := s'\<rparr>)
            | (None, mgr', s') \<Rightarrow>
                Inr (st\<lparr>self_mgr := mgr', the_store := s',
                        uploaded_files := uploaded_files st @ [object_name],
                        current_file_buffer := [],
                        current_file_rows := 0,
                        file_index := file_index st + 1\<rparr>))
      else Inr st)"

definition process_line ::
  "env \<Rightarrow> string \<Rightarrow> string \<Rightarrow> int \<Rightarrow> stream_state \<Rightarrow> string \<Rightarrow> (error \<times> stream_state) + stream_state" where
  \<comment> \<open>the body of \<open>for line in lines\<close>\<close>
  "process_line e filename timestamp max_rows st line =
     (if strip line = [] then Inr st
      else (case header st of
              None \<Rightarrow>
                Inr (st\<lparr>header := Some line,
                        current_file_buffer := current_file_buffer st @ line @ [newline]\<rparr>)
            | Some h \<Rightarrow>
                (case (if current_file_rows st \<ge> max_rows
                       then (case finalize_current_file e filename timestamp st of
                               Inl x \<Rightarrow> Inl x
                             | Inr st' \<Rightarrow>
                                 Inr (st'\<lparr>current_file_buffer :=
                                            current_file_buffer st' @ h @ [newline]\<rparr>))
                       else Inr st) of
                   Inl x \<Rightarrow> Inl x
                 | Inr st1 \<Rightarrow>
                     Inr (st1\<lparr>current_file_buffer := current_file_buffer st1 @ line @ [newline],
                              current_file_rows := current_file_rows st1 + 1,
                              total_rows := total_rows st1 + 1\<rparr>))))"

fun process_lines ::
  "env \<Rightarrow> string \<Rightarrow> string \<Rightarrow> int \<Rightarrow> stream_state \<Rightarrow> string list \<Rightarrow> (error \<times> stream_state) + stream_state" where
  "process_lines e filename timestamp max_rows st [] = Inr st"
| "process_lines e filename timestamp max_rows st (line # lines) =
     (case process_line e filename timestamp max_rows st line of
        Inl x \<Rightarrow> Inl x
      | Inr st' \<Rightarrow> process_lines e filename timestamp max_rows st' lines)"

fun process_chunks ::
  "env \<Rightarrow> string \<Rightarrow> string \<Rightarrow> int \<Rightarrow> stream_state \<Rightarrow> string list \<Rightarrow> (error \<times> stream_state) + stream_state" where
  \<comment> \<open>the \<open>for chunk in csv_generator\<close> loop\<close>
  "process_chunks e filename timestamp max_rows st [] = Inr st"
| "process_chunks e filename timestamp max_rows st (chunk # chunks) =
     (if contains ''__STREAM_ERROR__'' chunk
      then (case split_first CHR '':'' chunk of
              [a, b] \<Rightarrow> Inl (ValueError (strip b), st)
            | _ \<Rightarrow> Inl (IndexError, st))
      else (case process_lines e filename timestamp max_rows st (split_on newline chunk) of
              Inl x \<Rightarrow> Inl x
            | Inr st' \<Rightarrow> process_chunks e filename timestamp max_rows st' chunks))"

definition utf8_length :: "string \<Rightarrow> int" where
  \<comment> \<open>bytes of the name as the archive stores it: ASCII, else UTF-8\<close>
  "utf8_length name =
     int (length name) + int (length (filter (\<lambda>c. 128 \<le> (of_char c :: nat)) name))"

definition writestr ::
  "(string \<times> blob) list \<Rightarrow> string \<Rightarrow> blob \<Rightarrow> error + (string \<times> blob) list" where
  \<comment> \<open>\<open>ZipFile.writestr(arcname, data)\<close> of Python 3.11: \<open>ZipInfo\<close> ends the name at the
      first NUL, \<open>zinfo.filename[-1]\<close> needs a character, and the header holds the
      length of the encoded name in 16 bits\<close>
  "writestr zip_file zinfo_or_arcname data =
     (let filename = takeWhile (\<lambda>c. c \<noteq> CHR 0x00) zinfo_or_arcname
      in if filename = [] then Inl IndexError
         else if 65535 < utf8_length filename then Inl StructError
         else Inr (zip_file @ [(filename, data)]))"

fun add_entries ::
  "env \<Rightarrow> store \<Rightarrow> (string \<times> blob) list \<Rightarrow> string list \<Rightarrow> (error \<times> store) + ((string \<times> blob) list \<times> store)" where
  \<comment> \<open>the \<open>for object_name in object_names\<close> loop of \<open>_create_zip_from_uploaded_files\<close>\<close>
  "add_entries e s zip_file [] = Inr (zip_file, s)"
| "add_entries e s zip_file (object_name # object_names) =
     (case get_object e s object_name of
        (Inl err, s1) \<Rightarrow> Inl (err, s1)
      | (Inr file_data, s1) \<Rightarrow>
          (case writestr zip_file (last (split_on CHR ''/'' object_name)) file_data of
             Inl err \<Rightarrow> Inl (err, s1)
           | Inr zip_file' \<Rightarrow>
               (case remove_object e s1 object_name of
                  (Some err, s2) \<Rightarrow> Inl (err, s2)
                | (None, s2) \<Rightarrow> add_entries e s2 zip_file' object_names)))"

definition create_zip_from_uploaded_files ::
  "env \<Rightarrow> manager \<Rightarrow> store \<Rightarrow> string list \<Rightarrow> string \<Rightarrow> (error + string) \<times> manager \<times> store" where
  "create_zip_from_uploaded_files e mgr s object_names zip_object_name =
     (case initialize_client e mgr of
        (Inl err, mgr') \<Rightarrow> (Inl err, mgr', s)
      | (Inr c, mgr') \<Rightarrow>
          (case add_entries e s [] object_names of
             Inl (err, s1) \<Rightarrow> (Inl err, mgr', s1)
           | Inr (zip_file, s1) \<Rightarrow>
               (case upload_file_streaming e mgr' s1 (Zip zip_file) zip_object_name of
                  (Some err, mgr'', s2) \<Rightarrow> (Inl err, mgr'', s2)
                | (None, mgr'', s2) \<Rightarrow> (Inr zip_object_name, mgr'', s2))))"

definition stream_csv_to_minio ::
  "env \<Rightarrow> manager \<Rightarrow> store \<Rightarrow> string list \<Rightarrow> string \<Rightarrow> string \<Rightarrow> int option \<Rightarrow>
     (error + (string \<times> int \<times> int)) \<times> manager \<times> store" where
  \<comment> \<open>\<open>timestamp\<close> is the text \<open>datetime.now().strftime("%Y%m%d_%H%M%S")\<close> gives at the call\<close>
  "stream_csv_to_minio e mgr s csv_generator filename timestamp max_rows_per_file =
     (let max_rows = (case max_rows_per_file of
                        None \<Rightarrow> get_max_rows_per_file mgr | Some v \<Rightarrow> v);
          st0 = initial_state mgr s
      in (case process_chunks e filename timestamp max_rows st0 csv_generator of
            Inl (err, st) \<Rightarrow> (Inl err, self_mgr st, the_store st)
          | Inr st1 \<Rightarrow>
              (case finalize_current_file e filename timestamp st1 of
                 Inl (err, st) \<Rightarrow> (Inl err, self_mgr st, the_store st)
               | Inr st2 \<Rightarrow>
                   if length (uploaded_files st2) = 0
                   then (Inl (ValueError ''No data to export''), self_mgr st2, the_store st2)
                   else if length (uploaded_files st2) > 1
                   then (case create_zip_from_uploaded_files e (self_mgr st2) (the_store st2)
                                (uploaded_files st2)
                                (''exports/'' @ timestamp @ ''_'' @
                                   str_replace ''.csv'' ''.zip'' filename) of
                           (Inl err, mgr', s') \<Rightarrow> (Inl err, mgr', s')
                         | (Inr object_name, mgr', s') \<Rightarrow>
                             (Inr (object_name, total_rows st2,
                                   int (length (uploaded_files st2))), mgr', s'))
                   else (Inr (hd (uploaded_files st2), total_rows st2,
                              int (length (uploaded_files st2))),
                         self_mgr st2, the_store st2))))"

section \<open>Vocabulary of the properties\<close>

text \<open>
  The non-blank lines a chunk sequence carries, in order: the first is the header, the
  others are the data rows.  A segment's text is its lines, each ended by a newline.
\<close>

definition all_lines :: "string list \<Rightarrow> string list" where
  "all_lines chunks =
     concat (map (\<lambda>chunk. filter (\<lambda>line. strip line \<noteq> []) (split_on newline chunk)) chunks)"

definition data_rows :: "string list \<Rightarrow> string list" where
  "data_rows chunks = tl (all_lines chunks)"

definition header_of :: "string list \<Rightarrow> string" where
  "header_of chunks = hd (all_lines chunks)"

definition render :: "string \<Rightarrow> string list \<Rightarrow> string" where
  \<comment> \<open>the text of a segment: the header line, then its rows, each ended by a newline\<close>
  "render h rows = concat (map (\<lambda>line. line @ [newline]) (h # rows))"

definition csv_lines :: "string \<Rightarrow> string list" where
  \<comment> \<open>reading a segment back: its lines, without the empty piece after the last newline\<close>
  "csv_lines s = butlast (split_on newline s)"

definition segment_rows :: "string \<Rightarrow> string list" where
  \<comment> \<open>the data rows of a segment read back: its lines after the first\<close>
  "segment_rows text = tl (csv_lines text)"

function segments_of :: "nat \<Rightarrow> 'a list \<Rightarrow> 'a list list" where
  \<comment> \<open>the reference split: consecutive groups of \<open>m\<close> rows, the last one possibly shorter\<close>
  "segments_of m xs =
     (if m = 0 \<or> length xs \<le> m then [xs] else take m xs # segments_of m (drop m xs))"
  by pat_completeness auto
termination
  by (relation "measure (\<lambda>(m, xs). length xs)") auto

text \<open>Object names: the job's prefix, the name of the \<open>k\<close>-th upload, the archive's name.\<close>

definition job_prefix :: "string \<Rightarrow> string" where
  "job_prefix timestamp = ''exports/'' @ timestamp @ ''_''"

definition seg_name :: "string \<Rightarrow> string \<Rightarrow> nat \<Rightarrow> string" where
  \<comment> \<open>the object name \<open>finalize_current_file\<close> builds when \<open>k\<close> files are uploaded already\<close>
  "seg_name timestamp filename k =
     ''exports/'' @ timestamp @ ''_'' @
       (if k > 0 then str_replace ''.csv'' [] filename @ ''_'' @ str_int (int k + 1) @ ''.csv''
        else filename)"

definition segment_names :: "string \<Rightarrow> string \<Rightarrow> nat \<Rightarrow> string list" where
  "segment_names timestamp filename n = map (seg_name timestamp filename) [0..<n]"

definition zip_name :: "string \<Rightarrow> string \<Rightarrow> string" where
  "zip_name timestamp filename =
     ''exports/'' @ timestamp @ ''_'' @ str_replace ''.csv'' ''.zip'' filename"

definition bare_name :: "string \<Rightarrow> string" where
  "bare_name object_name = last (split_on CHR ''/'' object_name)"

definition arcname :: "string \<Rightarrow> string" where
  \<comment> \<open>the name an object's archive entry gets: its bare name up to the first NUL\<close>
  "arcname object_name = takeWhile (\<lambda>c. c \<noteq> CHR 0x00) (bare_name object_name)"

definition entry_name_ok :: "string \<Rightarrow> bool" where
  \<comment> \<open>the archive takes an entry of that object\<close>
  "entry_name_ok object_name =
     (arcname object_name \<noteq> [] \<and> utf8_length (arcname object_name) \<le> 65535)"

definition can_consolidate :: "string \<Rightarrow> string \<Rightarrow> nat \<Rightarrow> bool" where
  \<comment> \<open>a job of \<open>n\<close> segments needs no archive, or the archive takes every segment\<close>
  "can_consolidate timestamp filename n =
     (n \<le> 1 \<or> list_all entry_name_ok (segment_names timestamp filename n))"

text \<open>What a run did: the calls it made, what it returned, what it left in the store.\<close>

definition new_calls :: "store \<Rightarrow> store \<Rightarrow> call list" where
  \<comment> \<open>the calls logged between an earlier and a later store\<close>
  "new_calls s s' = drop (length (trace s)) (trace s')"

fun segment_puts :: "call list \<Rightarrow> (string \<times> string) list" where
  \<comment> \<open>the CSV uploads among the calls made on the client: object name and text\<close>
  "segment_puts [] = []"
| "segment_puts (Put name (Bytes text) # cs) = (name, text) # segment_puts cs"
| "segment_puts (c # cs) = segment_puts cs"

fun archive_puts :: "call list \<Rightarrow> string list" where
  \<comment> \<open>the archive uploads among the calls made on the client: their object names\<close>
  "archive_puts [] = []"
| "archive_puts (Put name (Zip entries) # cs) = name # archive_puts cs"
| "archive_puts (c # cs) = archive_puts cs"

fun is_put :: "call \<Rightarrow> bool" where
  "is_put (Put name data) = True"
| "is_put c = False"

definition stream_calls ::
  "env \<Rightarrow> manager \<Rightarrow> store \<Rightarrow> string list \<Rightarrow> string \<Rightarrow> string \<Rightarrow> int option \<Rightarrow> call list" where
  \<comment> \<open>the calls a run of \<open>stream_csv_to_minio\<close> makes on the client\<close>
  "stream_calls e mgr s chunks filename timestamp max_rows_per_file =
     new_calls s (snd (snd (stream_csv_to_minio e mgr s chunks filename timestamp max_rows_per_file)))"

definition stream_store ::
  "env \<Rightarrow> manager \<Rightarrow> store \<Rightarrow> string list \<Rightarrow> string \<Rightarrow> string \<Rightarrow> int option \<Rightarrow> store" where
  \<comment> \<open>the store a run of \<open>stream_csv_to_minio\<close> leaves\<close>
  "stream_store e mgr s chunks filename timestamp max_rows_per_file =
     snd (snd (stream_csv_to_minio e mgr s chunks filename timestamp max_rows_per_file))"

definition object_name_of ::
  "(error + (string \<times> int \<times> int)) \<times> manager \<times> store \<Rightarrow> string option" where
  \<comment> \<open>the first component of the tuple \<open>stream_csv_to_minio\<close> returns, if it returns\<close>
  "object_name_of r =
     (case fst r of Inl err \<Rightarrow> None | Inr (object_name, n_rows, n_files) \<Rightarrow> Some object_name)"

definition total_rows_of ::
  "(error + (string \<times> int \<times> int)) \<times> manager \<times> store \<Rightarrow> int option" where
  "total_rows_of r =
     (case fst r of Inl err \<Rightarrow> None | Inr (object_name, n_rows, n_files) \<Rightarrow> Some n_rows)"

definition file_count_of ::
  "(error + (string \<times> int \<times> int)) \<times> manager \<times> store \<Rightarrow> int option" where
  "file_count_of r =
     (case fst r of Inl err \<Rightarrow> None | Inr (object_name, n_rows, n_files) \<Rightarrow> Some n_files)"

definition job_objects :: "string \<Rightarrow> store \<Rightarrow> (string \<times> stored_object) list" where
  \<comment> \<open>the objects stored under the job's prefix\<close>
  "job_objects timestamp s =
     filter (\<lambda>(name, obj). prefix (job_prefix timestamp) name) (objects s)"

definition is_archive :: "stored_object \<Rightarrow> bool" where
  "is_archive obj = (case content obj of Zip entries \<Rightarrow> True | Bytes text \<Rightarrow> False)"

definition archive_of :: "store \<Rightarrow> string \<Rightarrow> (string \<times> blob) list" where
  \<comment> \<open>unzipping the object of that name\<close>
  "archive_of s object_name =
     (case map_of (objects s) object_name of
        None \<Rightarrow> []
      | Some obj \<Rightarrow> (case content obj of Zip entries \<Rightarrow> entries | Bytes text \<Rightarrow> []))"

definition unzipped_rows :: "(string \<times> blob) list \<Rightarrow> string list" where
  \<comment> \<open>the data rows of the entries, in entry order, each entry's header line dropped\<close>
  "unzipped_rows entries =
     concat (map (\<lambda>(key, data). case data of Bytes text \<Rightarrow> segment_rows text | Zip es \<Rightarrow> [])
               entries)"

text \<open>When a run can succeed, and which objects a sweep is to remove.\<close>

definition healthy :: "env \<Rightarrow> bool" where
  \<comment> \<open>no client call raises\<close>
  "healthy e = (\<forall>c. \<not> io_fails e c)"

definition config_ok :: "env \<Rightarrow> bool" where
  "config_ok e =
     (minio_installed e \<and>
      (case app_config e of
         None \<Rightarrow> False
       | Some cfg \<Rightarrow>
           cfg_enabled cfg = Some True \<and>
           (case cfg_access_key cfg of None \<Rightarrow> False | Some v \<Rightarrow> v \<noteq> []) \<and>
           (case cfg_secret_key cfg of None \<Rightarrow> False | Some v \<Rightarrow> v \<noteq> [])))"

definition client_ready :: "env \<Rightarrow> manager \<Rightarrow> bool" where
  \<comment> \<open>\<open>_initialize_client\<close> will return a client\<close>
  "client_ready e mgr = (m_client mgr \<noteq> None \<or> config_ok e)"

definition ready_manager :: "env \<Rightarrow> manager \<Rightarrow> manager" where
  \<comment> \<open>the manager once \<open>_initialize_client\<close> has run\<close>
  "ready_manager e mgr = snd (initialize_client e mgr)"

definition expired :: "py_datetime \<Rightarrow> stored_object \<Rightarrow> bool" where
  \<comment> \<open>last modified strictly before the cutoff\<close>
  "expired cutoff_time obj =
     (case last_modified obj of None \<Rightarrow> False | Some t \<Rightarrow> datetime_lt t cutoff_time = Inr True)"

definition comparable :: "py_datetime \<Rightarrow> stored_object \<Rightarrow> bool" where
  \<comment> \<open>the object's time, if it has one, can be ordered against the cutoff\<close>
  "comparable cutoff_time obj =
     (case last_modified obj of
        None \<Rightarrow> True
      | Some t \<Rightarrow> (case datetime_lt t cutoff_time of Inl err \<Rightarrow> False | Inr b \<Rightarrow> True))"

definition retention_of :: "manager \<Rightarrow> int" where
  "retention_of mgr =
     (case cfg_file_retention_seconds (m_config mgr) of None \<Rightarrow> 604800 | Some v \<Rightarrow> v)"

definition configured_retention :: "env \<Rightarrow> int" where
  \<comment> \<open>\<open>file_retention_seconds\<close> of the application's configuration, or its default\<close>
  "configured_retention e =
     (case app_config e of
        None \<Rightarrow> 604800
      | Some cfg \<Rightarrow> (case cfg_file_retention_seconds cfg of None \<Rightarrow> 604800 | Some v \<Rightarrow> v))"

definition cutoff_of :: "int \<Rightarrow> int \<Rightarrow> error + py_datetime" where
  \<comment> \<open>\<open>datetime.now() - timedelta(seconds=retention_seconds)\<close>\<close>
  "cutoff_of now retention_seconds =
     (case timedelta_seconds retention_seconds of
        Inl err \<Rightarrow> Inl err
      | Inr delta \<Rightarrow> datetime_sub (Naive now) delta)"

definition sweep_listing :: "store \<Rightarrow> (string \<times> stored_object) list" where
  \<comment> \<open>the objects a sweep enumerates\<close>
  "sweep_listing s = filter (\<lambda>(name, obj). prefix ''exports/'' name) (objects s)"

definition sweep_candidates ::
  "py_datetime \<Rightarrow> (string \<times> stored_object) list \<Rightarrow> (string \<times> stored_object) list" where
  \<comment> \<open>the objects under \<open>exports/\<close> last modified strictly before the cutoff\<close>
  "sweep_candidates cutoff_time objs =
     filter (\<lambda>(name, obj). prefix ''exports/'' name \<and> expired cutoff_time obj) objs"

definition sweep_survivors ::
  "py_datetime \<Rightarrow> (string \<times> stored_object) list \<Rightarrow> (string \<times> stored_object) list" where
  "sweep_survivors cutoff_time objs =
     filter (\<lambda>(name, obj). \<not> (prefix ''exports/'' name \<and> expired cutoff_time obj)) objs"

section \<open>Auxiliary notions of the proofs\<close>

text \<open>
  The state and the store that the upload loop and the consolidation reach, written as
  functions of the reference split, and the invariant that uploads are never undone.
\<close>

definition uploads_kept :: "store \<Rightarrow> stream_state \<Rightarrow> bool" where
  "uploads_kept s st =
     (set (uploaded_files st) \<subseteq> fst ` set (objects (the_store st)) \<and>
      (\<exists>cs. trace (the_store st) = trace s @ cs \<and> list_all is_put cs))"

definition nat_of_str :: "string \<Rightarrow> nat" where
  \<comment> \<open>reading a decimal numeral back\<close>
  "nat_of_str s = foldl (\<lambda>a c. 10 * a + (of_char c - 48)) 0 s"

definition csv_object :: "env \<Rightarrow> string \<Rightarrow> string \<Rightarrow> stored_object" where
  "csv_object e object_name text =
     \<lparr>content = Bytes text,
      content_type = (if endswith object_name ''.csv'' then ''text/csv'' else ''application/zip''),
      last_modified = Some (server_time e)\<rparr>"

definition zip_object :: "env \<Rightarrow> string \<Rightarrow> (string \<times> blob) list \<Rightarrow> stored_object" where
  "zip_object e object_name entries =
     \<lparr>content = Zip entries,
      content_type = (if endswith object_name ''.csv'' then ''text/csv'' else ''application/zip''),
      last_modified = Some (server_time e)\<rparr>"

definition stored :: "env \<Rightarrow> string \<Rightarrow> string \<Rightarrow> store \<Rightarrow> store" where
  \<comment> \<open>the store after a successful upload of CSV text\<close>
  "stored e object_name text s =
     s\<lparr>objects := AList.update object_name (csv_object e object_name text) (objects s),
       trace := trace s @ [Put object_name (Bytes text)]\<rparr>"

fun store_segments ::
  "env \<Rightarrow> string \<Rightarrow> string \<Rightarrow> string \<Rightarrow> nat \<Rightarrow> string list list \<Rightarrow> store \<Rightarrow> store" where
  \<comment> \<open>the store after uploading the given segments, \<open>k\<close> files being uploaded already\<close>
  "store_segments e timestamp filename h k [] s = s"
| "store_segments e timestamp filename h k (seg # segs) s =
     store_segments e timestamp filename h (Suc k) segs
       (stored e (seg_name timestamp filename k) (render h seg) s)"

definition after_rows ::
  "env \<Rightarrow> string \<Rightarrow> string \<Rightarrow> string \<Rightarrow> nat \<Rightarrow> stream_state \<Rightarrow> string list \<Rightarrow> string list \<Rightarrow> stream_state" where
  \<comment> \<open>the loop state after more rows, \<open>cur\<close> being the rows of the file in the buffer\<close>
  "after_rows e timestamp filename h m st cur rs =
     (let segs = segments_of m (cur @ rs); k = length (uploaded_files st)
      in st\<lparr>self_mgr := (if length segs > 1 then ready_manager e (self_mgr st) else self_mgr st),
            the_store := store_segments e timestamp filename h k (butlast segs) (the_store st),
            uploaded_files := uploaded_files st @
               map (seg_name timestamp filename) [k..<k + (length segs - 1)],
            current_file_buffer := render h (last segs),
            current_file_rows := int (length (last segs)),
            total_rows := total_rows st + int (length rs),
            file_index := file_index st + int (length segs - 1)\<rparr>)"

definition uploaded_state ::
  "env \<Rightarrow> manager \<Rightarrow> store \<Rightarrow> string \<Rightarrow> string \<Rightarrow> string \<Rightarrow> string list list \<Rightarrow> int \<Rightarrow> stream_state" where
  \<comment> \<open>the loop state once every segment is uploaded\<close>
  "uploaded_state e mgr s timestamp filename h segs n =
     \<lparr>self_mgr = ready_manager e mgr,
      the_store = store_segments e timestamp filename h 0 segs s,
      uploaded_files = map (seg_name timestamp filename) [0..<length segs],
      current_file_buffer = [], current_file_rows = 0, total_rows = n,
      file_index = int (length segs) + 1, header = Some h\<rparr>"

definition archive_entries ::
  "string \<Rightarrow> string \<Rightarrow> string \<Rightarrow> string list list \<Rightarrow> (string \<times> blob) list" where
  \<comment> \<open>one entry per segment, in upload order, under the segment's entry name\<close>
  "archive_entries timestamp filename h segs =
     map (\<lambda>k. (arcname (seg_name timestamp filename k), Bytes (render h (segs ! k))))
       [0..<length segs]"

definition consolidated ::
  "env \<Rightarrow> string \<Rightarrow> string \<Rightarrow> string \<Rightarrow> string list list \<Rightarrow> store \<Rightarrow> store" where
  \<comment> \<open>the store after the uploaded segments have been packed into the archive\<close>
  "consolidated e timestamp filename h segs s1 =
     \<lparr>objects =
        AList.update (zip_name timestamp filename)
          (zip_object e (zip_name timestamp filename)
             (archive_entries timestamp filename h segs))
          (fold AList.delete (segment_names timestamp filename (length segs)) (objects s1)),
      trace = trace s1 @
        concat (map (\<lambda>n. [Get n, Remove n]) (segment_names timestamp filename (length segs))) @
        [Put (zip_name timestamp filename) (Zip (archive_entries timestamp filename h segs))]\<rparr>"

definition run_store ::
  "env \<Rightarrow> string \<Rightarrow> string \<Rightarrow> string \<Rightarrow> string list list \<Rightarrow> store \<Rightarrow> store" where
  \<comment> \<open>the store a successful run leaves\<close>
  "run_store e timestamp filename h segs s =
     (if length segs > 1
      then consolidated e timestamp filename h segs
             (store_segments e timestamp filename h 0 segs s)
      else store_segments e timestamp filename h 0 segs s)"

declare segments_of.simps [simp del] str_nat.simps [simp del]

section \<open>Concrete inputs for the examples\<close>

definition demo_config :: minio_config where
  "demo_config =
     empty_config\<lparr>cfg_enabled := Some True, cfg_access_key := Some ''key'',
                  cfg_secret_key := Some ''secret'', cfg_max_rows_per_file := Some 500000\<rparr>"

definition demo_env :: env where
  "demo_env =
     \<lparr>minio_installed = True, app_config = Some demo_config,
      io_fails = (\<lambda>c. False), server_time = Aware 63871329600000000\<rparr>"


definition empty_store :: store where
  "empty_store = \<lparr>objects = [], trace = []\<rparr>"

definition demo_rows :: "string list" where
  "demo_rows = [''a,b'' @ [newline] @ ''1,2'' @ [newline] @ ''3,4'' @ [newline]]"

definition demo_partial :: stream_state where
  "demo_partial =
     (case process_chunks demo_env ''f.csv'' ''20250101_120000'' 1
             (initial_state new_manager empty_store) demo_rows of
        Inr st \<Rightarrow> st | Inl x \<Rightarrow> initial_state new_manager empty_store)"

definition demo_two_rows :: "string list" where
  "demo_two_rows = [''a,b'' @ [newline] @ ''1,2'' @ [newline] @ ''3,4'' @ [newline]]"

definition demo_chunks :: "string list" where
  \<comment> \<open>a header and three rows, in two chunks\<close>
  "demo_chunks =
     [''a,b'' @ [newline] @ ''1,2'' @ [newline] @ ''3,4'' @ [newline], ''5,6'' @ [newline]]"

definition demo_first_segment :: string where
  "demo_first_segment = ''a,b'' @ [newline] @ ''1,2'' @ [newline] @ ''3,4'' @ [newline]"



definition aware_object :: stored_object where
  \<comment> \<open>last modified 2025-01-01 12:00 UTC, as the client reports it\<close>
  "aware_object = \<lparr>content = Bytes ''h'', content_type = ''text/csv'',
                    last_modified = Some (Aware 63871329600000000)\<rparr>"

definition demo_now :: int where
  \<comment> \<open>2025-02-01 00:00\<close>
  "demo_now = 63873964800000000"



definition aware_bucket :: store where
  "aware_bucket = \<lparr>objects = [(''exports/a.csv'', aware_object)], trace = []\<rparr>"

definition small_limit_env :: env where
  \<comment> \<open>the application configures two rows per file\<close>
  "small_limit_env =
     demo_env\<lparr>app_config := Some (demo_config\<lparr>cfg_max_rows_per_file := Some 2\<rparr>)\<rparr>"

definition nul_filename :: string where
  \<comment> \<open>a base filename with a NUL character before its extension\<close>
  "nul_filename = ''a'' @ [CHR 0x00] @ ''.csv''"

definition first_job_store :: store where
  \<comment> \<open>the store after a job that exported \<open>f.csv\<close> in two segments\<close>
  "first_job_store =
     snd (snd (stream_csv_to_minio demo_env new_manager empty_store demo_chunks ''f.csv''
                 ''20250101_120000'' (Some 2)))"

section \<open>Sources without data, and the error sentinel\<close>

subsection \<open>Text lemmas\<close>

lemma contains_set: "contains sub s \<Longrightarrow> set sub \<subseteq> set s"
proof (induction s)
  case Nil
  then show ?case by simp
next
  case (Cons c cs)
  then show ?case
    using set_mono_prefix [of sub "c # cs"] by auto
qed

lemma contains_prefix: "prefix sub s \<Longrightarrow> contains sub s"
  by (cases s) auto

lemma contains_append: "contains sub (p @ sub @ q)"
  by (induction p) (auto simp: contains_prefix)

lemma dropWhile_all_iff:
  "(\<forall>c\<in>set (dropWhile P s). P c) \<longleftrightarrow> (\<forall>c\<in>set s. P c)"
  by (induction s) auto

lemma strip_empty_iff: "strip s = [] \<longleftrightarrow> (\<forall>c\<in>set s. is_space c)"
proof -
  have "strip s = [] \<longleftrightarrow> dropWhile is_space (rev (dropWhile is_space s)) = []"
    by (simp add: strip_def)
  also have "\<dots> \<longleftrightarrow> (\<forall>c\<in>set (dropWhile is_space s). is_space c)"
    unfolding dropWhile_eq_Nil_conv by simp
  also have "\<dots> \<longleftrightarrow> (\<forall>c\<in>set s. is_space c)"
    by (rule dropWhile_all_iff)
  finally show ?thesis .
qed

lemma split_on_nonempty: "split_on sep s \<noteq> []"
  by (induction s) (auto split: list.splits)

lemma split_on_chars: "c \<in> set s \<Longrightarrow> c = sep \<or> (\<exists>l\<in>set (split_on sep s). c \<in> set l)"
  by (induction s) (auto split: list.splits)

lemma blank_chunk_no_marker:
  assumes "\<forall>l\<in>set (split_on newline chunk). strip l = []"
  shows "\<not> contains ''__STREAM_ERROR__'' chunk"
proof
  assume "contains ''__STREAM_ERROR__'' chunk"
  then have "CHR ''_'' \<in> set chunk" using contains_set by fastforce
  then have "CHR ''_'' = newline \<or> (\<exists>l\<in>set (split_on newline chunk). CHR ''_'' \<in> set l)"
    by (rule split_on_chars)
  then obtain l where "l \<in> set (split_on newline chunk)" "CHR ''_'' \<in> set l"
    by (auto simp: newline_def)
  with assms have "is_space CHR ''_''" by (auto simp: strip_empty_iff)
  then show False by (simp add: is_space_def space_chars_def)
qed

subsection \<open>A source without any non-blank line\<close>

lemma process_lines_blank:
  "\<forall>l\<in>set ls. strip l = [] \<Longrightarrow> process_lines e f t m st ls = Inr st"
  by (induction ls) (auto simp: process_line_def)

lemma process_lines_filter:
  "process_lines e f t m st (filter (\<lambda>l. strip l \<noteq> []) ls) = process_lines e f t m st ls"
  by (induction ls arbitrary: st) (auto simp: process_line_def split: sum.splits)

lemma process_lines_append:
  "process_lines e f t m st (xs @ ys) =
     (case process_lines e f t m st xs of
        Inl x \<Rightarrow> Inl x | Inr st' \<Rightarrow> process_lines e f t m st' ys)"
  by (induction xs arbitrary: st) (auto split: sum.splits)

lemma process_chunks_append:
  "process_chunks e f t m st (xs @ ys) =
     (case process_chunks e f t m st xs of
        Inl x \<Rightarrow> Inl x | Inr st' \<Rightarrow> process_chunks e f t m st' ys)"
  by (induction xs arbitrary: st) (auto split: sum.splits list.splits)

lemma all_lines_Nil_iff:
  "all_lines chunks = [] \<longleftrightarrow>
     (\<forall>chunk\<in>set chunks. \<forall>l\<in>set (split_on newline chunk). strip l = [])"
  by (auto simp: all_lines_def filter_empty_conv)

lemma process_chunks_blank:
  "all_lines chunks = [] \<Longrightarrow> process_chunks e f t m st chunks = Inr st"
proof (induction chunks)
  case Nil
  then show ?case by simp
next
  case (Cons c cs)
  from Cons.prems have b: "\<forall>l\<in>set (split_on newline c). strip l = []"
    and r: "all_lines cs = []"
    by (auto simp: all_lines_Nil_iff)
  from b have "\<not> contains ''__STREAM_ERROR__'' c" by (rule blank_chunk_no_marker)
  with b r Cons.IH show ?case by (simp add: process_lines_blank)
qed

text \<open>
  C3 (amended).  When the source carries no non-blank line at all (no header, no row; this
  includes the empty sequence), \<open>stream_csv_to_minio\<close> fails with the error
  "No data to export", and neither the manager nor the store changes: no call is made on
  the client, so nothing is uploaded.
\<close>

theorem no_lines_no_data:
  assumes "all_lines chunks = []"
  shows "stream_csv_to_minio e mgr s chunks filename timestamp max_rows_per_file =
           (Inl (ValueError ''No data to export''), mgr, s)"
  using assms
  by (simp add: stream_csv_to_minio_def process_chunks_blank finalize_current_file_def
      initial_state_def Let_def)

theorem no_lines_no_data_witness:
  "all_lines [[newline], ''  ''] = [] \<and>
   stream_csv_to_minio demo_env new_manager empty_store [[newline], ''  ''] ''f.csv''
       ''20250101_120000'' None =
     (Inl (ValueError ''No data to export''), new_manager, empty_store)"
proof -
  have h: "all_lines [[newline], ''  ''] = []" by code_simp
  show ?thesis using h no_lines_no_data [OF h] by simp
qed

text \<open>
  C3 as stated fails on a source that yields only the header line: the header is in the
  buffer when the loop ends, so \<open>finalize_current_file\<close> uploads it, and the
  call returns one file with zero rows instead of raising.
\<close>

theorem header_only_counterexample:
  "data_rows [''a,b'' @ [newline]] = [] \<and>
   fst (stream_csv_to_minio demo_env new_manager empty_store [''a,b'' @ [newline]] ''f.csv''
          ''20250101_120000'' None) = Inr (''exports/20250101_120000_f.csv'', 0, 1) \<and>
   trace (snd (snd (stream_csv_to_minio demo_env new_manager empty_store
          [''a,b'' @ [newline]] ''f.csv'' ''20250101_120000'' None))) =
     [Put ''exports/20250101_120000_f.csv'' (Bytes (''a,b'' @ [newline]))]"
  by code_simp

subsection \<open>The error sentinel\<close>

lemma split_first_colon:
  assumes "CHR '':'' \<notin> set a"
  shows "split_first CHR '':'' (a @ CHR '':'' # b) = [a, b]"
proof -
  have t: "takeWhile (\<lambda>c. c \<noteq> CHR '':'') (a @ CHR '':'' # b) = a"
    using assms by (induction a) auto
  have d: "dropWhile (\<lambda>c. c \<noteq> CHR '':'') (a @ CHR '':'' # b) = CHR '':'' # b"
    using assms by (induction a) auto
  show ?thesis by (simp add: split_first_def t d)
qed

lemma strip_leading_space: "strip (CHR '' '' # s) = strip s"
  by (simp add: strip_def is_space_def space_chars_def)

lemma marker_chunk:
  assumes "contains ''__STREAM_ERROR__'' chunk"
  shows "process_chunks e f t m st (chunk # rest) =
           Inl (if CHR '':'' \<in> set chunk
                then ValueError (strip (tl (dropWhile (\<lambda>c. c \<noteq> CHR '':'') chunk)))
                else IndexError, st)"
  using assms by (simp add: split_first_def)

lemma marker_message:
  assumes "CHR '':'' \<notin> set p"
  shows "(if CHR '':'' \<in> set (p @ ''__STREAM_ERROR__'' @ CHR '':'' # rest)
          then ValueError (strip (tl (dropWhile (\<lambda>c. c \<noteq> CHR '':'')
                 (p @ ''__STREAM_ERROR__'' @ CHR '':'' # rest))))
          else IndexError) = ValueError (strip rest)"
proof -
  have d: "dropWhile (\<lambda>c. c \<noteq> CHR '':'') (a @ CHR '':'' # rest) = CHR '':'' # rest"
    if "CHR '':'' \<notin> set a" for a
    using that by (induction a) auto
  have n: "CHR '':'' \<notin> set (p @ ''__STREAM_ERROR__'')" using assms by simp
  have "dropWhile (\<lambda>c. c \<noteq> CHR '':'') ((p @ ''__STREAM_ERROR__'') @ CHR '':'' # rest) =
          CHR '':'' # rest"
    using n by (rule d)
  then have "dropWhile (\<lambda>c. c \<noteq> CHR '':'') (p @ ''__STREAM_ERROR__'' @ CHR '':'' # rest) =
          CHR '':'' # rest" by simp
  then show ?thesis by (simp only: list.sel) simp
qed

lemma finalize_uploads_kept:
  assumes "uploads_kept s st" and "finalize_current_file e f t st = Inr st'"
  shows "uploads_kept s st'"
proof (cases "length (current_file_buffer st) > 0")
  case False
  with assms show ?thesis by (simp add: finalize_current_file_def)
next
  case True
  with assms show ?thesis
    unfolding finalize_current_file_def upload_file_streaming_def put_object_def
      uploads_kept_def Let_def
    by (auto split: prod.splits sum.splits option.splits if_splits
        simp: AList.dom_update)
qed

lemma buffer_uploads_kept [simp]:
  "uploads_kept s (st\<lparr>current_file_buffer := b\<rparr>) = uploads_kept s st"
  "uploads_kept s (st\<lparr>current_file_rows := r\<rparr>) = uploads_kept s st"
  "uploads_kept s (st\<lparr>total_rows := n\<rparr>) = uploads_kept s st"
  "uploads_kept s (st\<lparr>header := h\<rparr>) = uploads_kept s st"
  by (simp_all add: uploads_kept_def)

lemma process_line_uploads_kept:
  assumes "uploads_kept s st" and "process_line e f t m st line = Inr st'"
  shows "uploads_kept s st'"
  using assms finalize_uploads_kept [of s st e f t]
  unfolding process_line_def
  by (auto split: if_splits option.splits sum.splits)

lemma process_lines_uploads_kept:
  "uploads_kept s st \<Longrightarrow> process_lines e f t m st ls = Inr st' \<Longrightarrow> uploads_kept s st'"
proof (induction ls arbitrary: st)
  case Nil
  then show ?case by simp
next
  case (Cons l ls)
  then show ?case
    by (auto split: sum.splits dest: process_line_uploads_kept)
qed

lemma process_chunks_uploads_kept:
  "uploads_kept s st \<Longrightarrow> process_chunks e f t m st cs = Inr st' \<Longrightarrow> uploads_kept s st'"
proof (induction cs arbitrary: st)
  case Nil
  then show ?case by simp
next
  case (Cons c cs)
  then show ?case
    by (auto split: sum.splits if_splits list.splits dest: process_lines_uploads_kept)
qed

lemma initial_uploads_kept: "uploads_kept s (initial_state mgr s)"
  by (simp add: uploads_kept_def initial_state_def)

text \<open>
  C4 (amended).  Let the chunks before it be processed without error, and let a chunk
  contain the marker \<open>__STREAM_ERROR__\<close>.  Then \<open>stream_csv_to_minio\<close> raises, whatever
  follows that chunk: \<open>ValueError\<close> with the text after the first colon of the chunk,
  stripped of surrounding whitespace, or \<open>IndexError\<close> when the chunk has no colon.
  When the marker is followed by a colon, a space and a message and no colon precedes
  the marker, the text raised is that message, stripped.  The manager and the store are
  the ones reached when the chunk was read: the chunk is not processed as data, every
  file uploaded so far is still in the store, and the calls made on the client were
  uploads only.
\<close>

theorem sentinel_aborts_stream:
  assumes "process_chunks e filename timestamp m (initial_state mgr s) before = Inr st"
    and "contains ''__STREAM_ERROR__'' chunk"
  shows "fst (stream_csv_to_minio e mgr s (before @ chunk # rest) filename timestamp (Some m)) =
           Inl (if CHR '':'' \<in> set chunk
                then ValueError (strip (tl (dropWhile (\<lambda>c. c \<noteq> CHR '':'') chunk)))
                else IndexError) \<and>
         snd (stream_csv_to_minio e mgr s (before @ chunk # rest) filename timestamp (Some m)) =
           (self_mgr st, the_store st) \<and>
         set (uploaded_files st) \<subseteq> fst ` set (objects (the_store st)) \<and>
         list_all is_put (new_calls s (the_store st)) \<and>
         (\<forall>p msg. chunk = p @ ''__STREAM_ERROR__'' @ '': '' @ msg \<and> CHR '':'' \<notin> set p \<longrightarrow>
            fst (stream_csv_to_minio e mgr s (before @ chunk # rest) filename timestamp (Some m)) =
              Inl (ValueError (strip msg)))"
proof -
  define err where "err = (if CHR '':'' \<in> set chunk
      then ValueError (strip (tl (dropWhile (\<lambda>c. c \<noteq> CHR '':'') chunk))) else IndexError)"
  have k: "uploads_kept s st"
    using initial_uploads_kept assms(1) by (rule process_chunks_uploads_kept)
  have r: "process_chunks e filename timestamp m (initial_state mgr s)
             (before @ chunk # rest) = Inl (err, st)"
    unfolding err_def
    by (simp only: process_chunks_append assms(1) sum.case marker_chunk [OF assms(2)])
  have run: "stream_csv_to_minio e mgr s (before @ chunk # rest) filename timestamp (Some m) =
           (Inl err, self_mgr st, the_store st)"
    by (simp only: stream_csv_to_minio_def Let_def option.case r sum.case prod.case)
  have msg: "err = ValueError (strip msg)"
    if "chunk = p @ ''__STREAM_ERROR__'' @ '': '' @ msg" and "CHR '':'' \<notin> set p" for p msg
  proof -
    have "chunk = p @ ''__STREAM_ERROR__'' @ CHR '':'' # (CHR '' '' # msg)"
      using that(1) by simp
    then have "err = ValueError (strip (CHR '' '' # msg))"
      unfolding err_def using marker_message [OF that(2)] by (simp only:)
    then show ?thesis by (simp only: strip_leading_space)
  qed
  from k have u: "set (uploaded_files st) \<subseteq> fst ` set (objects (the_store st))"
    by (simp add: uploads_kept_def)
  from k have c: "list_all is_put (new_calls s (the_store st))"
    by (auto simp: uploads_kept_def new_calls_def)
  show ?thesis
    unfolding run fst_conv snd_conv err_def [symmetric] using u c msg by blast
qed

theorem sentinel_aborts_stream_witness:
  "stream_csv_to_minio demo_env new_manager empty_store
     (demo_rows @ [''__STREAM_ERROR__: boom'' @ [newline]]) ''f.csv'' ''20250101_120000''
     (Some 1) =
     (Inl (ValueError ''boom''), self_mgr demo_partial, the_store demo_partial) \<and>
   uploaded_files demo_partial = [''exports/20250101_120000_f.csv''] \<and>
   map fst (objects (the_store demo_partial)) = [''exports/20250101_120000_f.csv'']"
proof -
  have h1: "process_chunks demo_env ''f.csv'' ''20250101_120000'' 1
              (initial_state new_manager empty_store) demo_rows = Inr demo_partial"
    by code_simp
  have h2: "contains ''__STREAM_ERROR__'' (''__STREAM_ERROR__: boom'' @ [newline])"
    by code_simp
  have f: "''__STREAM_ERROR__: boom'' @ [newline] =
           [] @ ''__STREAM_ERROR__'' @ '': '' @ (''boom'' @ [newline])" by simp
  have s: "strip (''boom'' @ [newline]) = ''boom''" by code_simp
  have u: "uploaded_files demo_partial = [''exports/20250101_120000_f.csv'']" by code_simp
  have o: "map fst (objects (the_store demo_partial)) = [''exports/20250101_120000_f.csv'']"
    by code_simp
  note th = sentinel_aborts_stream [OF h1 h2, where rest = "[]"]
  from th f have "fst (stream_csv_to_minio demo_env new_manager empty_store
      (demo_rows @ [''__STREAM_ERROR__: boom'' @ [newline]]) ''f.csv'' ''20250101_120000''
      (Some 1)) = Inl (ValueError (strip (''boom'' @ [newline])))"
    by (metis empty_iff empty_set)
  with th s u o show ?thesis by (simp add: prod_eq_iff)
qed

text \<open>
  C4 as stated fails when a colon precedes the marker in the chunk: the message raised
  is what follows the first colon of the chunk, not what follows the marker.
\<close>

theorem sentinel_message_counterexample:
  "contains ''__STREAM_ERROR__'' ''note: see __STREAM_ERROR__: boom'' \<and>
   fst (stream_csv_to_minio demo_env new_manager empty_store
          [''note: see __STREAM_ERROR__: boom''] ''f.csv'' ''20250101_120000'' None) =
     Inl (ValueError ''see __STREAM_ERROR__: boom'')"
  by code_simp

section \<open>The retention sweep\<close>

lemma initialize_client_ready:
  "client_ready e mgr \<Longrightarrow> \<exists>c. initialize_client e mgr = (Inr c, ready_manager e mgr)"
  by (auto simp: client_ready_def config_ok_def ready_manager_def initialize_client_def Let_def
      split: option.splits)

lemma retention_of_ready:
  "m_client mgr = None \<Longrightarrow> config_ok e \<Longrightarrow>
   retention_of (ready_manager e mgr) = configured_retention e"
  by (auto simp: config_ok_def ready_manager_def initialize_client_def Let_def retention_of_def
      configured_retention_def split: option.splits)

lemma fold_delete_filter:
  "fold AList.delete ks al = filter (\<lambda>x. fst x \<notin> set ks) al"
proof (induction ks arbitrary: al)
  case Nil
  then show ?case by simp
next
  case (Cons k ks)
  have "AList.delete k al = filter (\<lambda>x. fst x \<noteq> k) al"
    by (induction al) auto
  with Cons show ?case by (auto intro: filter_cong)
qed

lemma sweep_append:
  "sweep e c s n (xs @ ys) =
     (case sweep e c s n xs of Inl x \<Rightarrow> Inl x | Inr (n', s') \<Rightarrow> sweep e c s' n' ys)"
  by (induction xs arbitrary: s n)
     (auto split: option.splits sum.splits prod.splits)

lemma sweep_ok:
  assumes "\<forall>x\<in>set objs. comparable c (snd x)"
    and "\<forall>x\<in>set objs. expired c (snd x) \<longrightarrow> \<not> io_fails e (Remove (fst x))"
  shows "sweep e c s n objs =
           Inr (n + int (length (filter (\<lambda>x. expired c (snd x)) objs)),
                s\<lparr>objects := fold AList.delete
                     (map fst (filter (\<lambda>x. expired c (snd x)) objs)) (objects s),
                  trace := trace s @
                     map (\<lambda>x. Remove (fst x)) (filter (\<lambda>x. expired c (snd x)) objs)\<rparr>)"
  using assms
proof (induction objs arbitrary: s n)
  case Nil
  then show ?case by simp
next
  case (Cons a objs)
  obtain name obj where a: "a = (name, obj)" by (cases a)
  have ih: "sweep e c s' n' objs =
           Inr (n' + int (length (filter (\<lambda>x. expired c (snd x)) objs)),
                s'\<lparr>objects := fold AList.delete
                     (map fst (filter (\<lambda>x. expired c (snd x)) objs)) (objects s'),
                  trace := trace s' @
                     map (\<lambda>x. Remove (fst x)) (filter (\<lambda>x. expired c (snd x)) objs)\<rparr>)"
    for s' n'
    using Cons.prems by (intro Cons.IH) auto
  show ?case
  proof (cases "last_modified obj")
    case None
    then show ?thesis by (simp add: a ih expired_def)
  next
    case (Some t)
    from Cons.prems(1) a Some obtain older where lt: "datetime_lt t c = Inr older"
      by (auto simp: comparable_def split: sum.splits)
    show ?thesis
    proof (cases older)
      case True
      with Cons.prems(2) a Some lt have "\<not> io_fails e (Remove name)"
        by (simp add: expired_def)
      with True show ?thesis
        by (simp add: a Some lt ih expired_def remove_object_def Let_def)
    next
      case False
      then show ?thesis by (simp add: a Some lt ih expired_def)
    qed
  qed
qed


lemma sweep_stops_at_comparison:
  assumes "\<forall>x\<in>set xs. comparable c (snd x)"
    and "\<forall>x\<in>set xs. expired c (snd x) \<longrightarrow> \<not> io_fails e (Remove (fst x))"
    and "\<not> comparable c obj"
  shows "sweep e c s n (xs @ (name, obj) # ys) =
           Inl (TypeError,
                s\<lparr>objects := fold AList.delete
                     (map fst (filter (\<lambda>x. expired c (snd x)) xs)) (objects s),
                  trace := trace s @
                     map (\<lambda>x. Remove (fst x)) (filter (\<lambda>x. expired c (snd x)) xs)\<rparr>)"
proof -
  from assms(3) obtain t where t: "last_modified obj = Some t" "datetime_lt t c = Inl TypeError"
    by (cases "last_modified obj")
       (auto simp: comparable_def split: sum.splits elim: datetime_lt.elims)
  show ?thesis
    using t by (simp add: sweep_append sweep_ok [OF assms(1) assms(2)])
qed

lemma distinct_keys_filter:
  assumes "distinct (map fst al)"
  shows "filter (\<lambda>x. fst x \<notin> set (map fst (filter P al))) al = filter (\<lambda>x. \<not> P x) al"
proof (rule filter_cong [OF refl])
  fix x assume x: "x \<in> set al"
  show "(fst x \<notin> set (map fst (filter P al))) = (\<not> P x)"
  proof
    assume "fst x \<notin> set (map fst (filter P al))"
    with x show "\<not> P x" by force
  next
    assume n: "\<not> P x"
    show "fst x \<notin> set (map fst (filter P al))"
    proof
      assume "fst x \<in> set (map fst (filter P al))"
      then obtain y where y: "y \<in> set al" "P y" "fst y = fst x" by auto
      from assms x y(1) y(3) have "y = x"
        by (metis eq_key_imp_eq_value prod.collapse)
      with y(2) n show False by simp
    qed
  qed
qed

lemma cleanup_run:
  assumes "client_ready e mgr" and "\<not> io_fails e (List ''exports/'')"
    and "cutoff_of now (retention_of (ready_manager e mgr)) = Inr c"
  shows "cleanup_old_files e mgr s now =
           (case sweep e c (s\<lparr>trace := trace s @ [List ''exports/'']\<rparr>) 0 (sweep_listing s) of
              Inl (err, s2) \<Rightarrow> (Inl err, ready_manager e mgr, s2)
            | Inr (deleted_count, s2) \<Rightarrow> (Inr deleted_count, ready_manager e mgr, s2))"
proof -
  obtain cl where i: "initialize_client e mgr = (Inr cl, ready_manager e mgr)"
    using initialize_client_ready [OF assms(1)] by blast
  have l: "list_objects e s ''exports/'' =
             (Inr (sweep_listing s), s\<lparr>trace := trace s @ [List ''exports/'']\<rparr>)"
    using assms(2) by (simp add: list_objects_def Let_def sweep_listing_def)
  obtain delta where d: "timedelta_seconds (retention_of (ready_manager e mgr)) = Inr delta"
    and u: "datetime_sub (Naive now) delta = Inr c"
    using assms(3) by (auto simp: cutoff_of_def split: sum.splits)
  show ?thesis
    by (simp only: cleanup_old_files_def i prod.case sum.case Let_def
        retention_of_def [symmetric] d u l)
qed

text \<open>
  When every time the store reports can be ordered against the cutoff, and the store's
  calls succeed, the sweep does what its documentation says: it removes exactly the
  objects under \<open>exports/\<close> last modified strictly before the cutoff and returns their
  number.
\<close>

lemma cleanup_with_comparable_times:
  assumes "client_ready e mgr" and "healthy e" and "distinct (map fst (objects s))"
    and "cutoff_of now (retention_of (ready_manager e mgr)) = Inr c"
    and "\<forall>x\<in>set (sweep_listing s). comparable c (snd x)"
  shows "cleanup_old_files e mgr s now =
           (Inr (int (length (sweep_candidates c (objects s)))),
            ready_manager e mgr,
            \<lparr>objects = sweep_survivors c (objects s),
             trace = trace s @ List ''exports/'' #
                map (\<lambda>x. Remove (fst x)) (sweep_candidates c (objects s))\<rparr>)"
proof -
  define P where "P = (\<lambda>x::string \<times> stored_object.
     case x of (name, obj) \<Rightarrow> prefix ''exports/'' name \<and> expired c obj)"
  have h: "\<not> io_fails e (List ''exports/'')" using assms(2) by (simp add: healthy_def)
  have ok: "\<forall>x\<in>set (sweep_listing s). expired c (snd x) \<longrightarrow> \<not> io_fails e (Remove (fst x))"
    using assms(2) by (simp add: healthy_def)
  have f: "filter (\<lambda>x. expired c (snd x)) (sweep_listing s) = filter P (objects s)"
    by (auto simp: P_def sweep_listing_def intro: filter_cong)
  have cand: "sweep_candidates c (objects s) = filter P (objects s)"
    by (simp add: sweep_candidates_def P_def)
  have surv: "sweep_survivors c (objects s) = filter (\<lambda>x. \<not> P x) (objects s)"
    by (auto simp: sweep_survivors_def P_def intro: filter_cong)
  have d: "fold AList.delete (map fst (filter P (objects s))) (objects s) =
             filter (\<lambda>x. \<not> P x) (objects s)"
    by (simp only: fold_delete_filter distinct_keys_filter [OF assms(3)])
  have sw: "sweep e c (s\<lparr>trace := trace s @ [List ''exports/'']\<rparr>) 0 (sweep_listing s) =
            Inr (int (length (filter P (objects s))),
                 \<lparr>objects = filter (\<lambda>x. \<not> P x) (objects s),
                  trace = trace s @ List ''exports/'' #
                    map (\<lambda>x. Remove (fst x)) (filter P (objects s))\<rparr>)"
    by (simp only: sweep_ok [OF assms(5) ok] f) (simp add: d)
  show ?thesis
    unfolding cand surv
    by (simp only: cleanup_run [OF assms(1) h assms(4)] sw sum.case prod.case)
qed

lemma cleanup_with_aware_time:
  assumes "client_ready e mgr" and "\<not> io_fails e (List ''exports/'')"
    and "cutoff_of now (retention_of (ready_manager e mgr)) = Inr c"
    and "sweep_listing s = (name, obj) # ys"
    and "last_modified obj = Some (Aware t)"
  shows "cleanup_old_files e mgr s now =
           (Inl TypeError, ready_manager e mgr, s\<lparr>trace := trace s @ [List ''exports/'']\<rparr>)"
proof -
  obtain delta where "datetime_sub (Naive now) delta = Inr c"
    using assms(3) by (auto simp: cutoff_of_def split: sum.splits)
  then obtain k where c: "c = Naive k" by (auto split: if_splits)
  have n: "\<not> comparable c obj" by (simp add: comparable_def assms(5) c)
  have "sweep e c (s\<lparr>trace := trace s @ [List ''exports/'']\<rparr>) 0 ([] @ (name, obj) # ys) =
          Inl (TypeError, s\<lparr>trace := trace s @ [List ''exports/'']\<rparr>)"
    by (subst sweep_stops_at_comparison [OF _ _ n]) simp_all
  then show ?thesis
    by (simp add: cleanup_run [OF assms(1) assms(2) assms(3)] assms(4))
qed

text \<open>
  C8.  The claim does not hold of the code for the times the MinIO client reports, which
  carry a time zone: \<open>datetime.now()\<close> carries none, so the comparison
  \<open>obj.last_modified < cutoff_time\<close> raises \<open>TypeError\<close>.  Here the store holds one object
  under \<open>exports/\<close>, last modified a month before \<open>now\<close>, with the default retention of
  seven days: the sweep lists the objects, raises, removes nothing and returns no count.
\<close>

theorem cleanup_raises_on_aware_time:
  "cleanup_old_files demo_env new_manager aware_bucket demo_now =
     (Inl TypeError, ready_manager demo_env new_manager,
      \<lparr>objects = [(''exports/a.csv'', aware_object)], trace = [List ''exports/'']\<rparr>)"
  by code_simp




section \<open>The reference split\<close>

lemma segments_small: "m = 0 \<or> length xs \<le> m \<Longrightarrow> segments_of m xs = [xs]"
  by (subst segments_of.simps) simp

lemma segments_big:
  "0 < m \<Longrightarrow> m < length xs \<Longrightarrow> segments_of m xs = take m xs # segments_of m (drop m xs)"
  by (subst segments_of.simps) simp

lemma segments_nonempty: "segments_of m xs \<noteq> []"
  by (subst segments_of.simps) simp

lemma concat_segments: "concat (segments_of m xs) = xs"
proof (induction m xs rule: segments_of.induct)
  case (1 m xs)
  show ?case
  proof (cases "m = 0 \<or> length xs \<le> m")
    case True
    then show ?thesis by (simp add: segments_small)
  next
    case False
    with 1 show ?thesis by (simp add: segments_big)
  qed
qed

lemma segments_bound: "0 < m \<Longrightarrow> seg \<in> set (segments_of m xs) \<Longrightarrow> length seg \<le> m"
proof (induction m xs rule: segments_of.induct)
  case (1 m xs)
  show ?case
  proof (cases "length xs \<le> m")
    case True
    with 1 show ?thesis by (simp add: segments_small)
  next
    case False
    with 1 show ?thesis by (auto simp: segments_big)
  qed
qed



section \<open>Object names\<close>

lemma digit_value:
  assumes "n < 10"
  shows "of_char (''0123456789'' ! n) - 48 = n"
proof -
  from assms have "n \<in> {0, 1, 2, 3, 4, 5, 6, 7, 8, 9}" by auto
  then show ?thesis by auto
qed

lemma nat_of_str_snoc:
  "nat_of_str (s @ [c]) = 10 * nat_of_str s + (of_char c - 48)"
  by (simp add: nat_of_str_def)

lemma nat_of_str_str_nat: "nat_of_str (str_nat n) = n"
proof (induction n rule: str_nat.induct)
  case (1 n)
  show ?case
  proof (cases "n < 10")
    case True
    have "str_nat n = [''0123456789'' ! n]"
      using True by (subst str_nat.simps) simp
    then show ?thesis
      using digit_value [OF True] by (simp add: nat_of_str_def)
  next
    case False
    have m: "n mod 10 < 10" by simp
    have "str_nat n = str_nat (n div 10) @ [''0123456789'' ! (n mod 10)]"
      using False by (subst str_nat.simps) simp
    then show ?thesis
      using 1 False digit_value [OF m] by (simp only: nat_of_str_snoc) simp
  qed
qed

lemma str_nat_inj: "str_nat a = str_nat b \<Longrightarrow> a = b"
  by (metis nat_of_str_str_nat)

lemma str_int_index: "str_int (int k + 1) = str_nat (Suc k)"
  by (simp add: str_int_def nat_add_distrib)

lemma count_str_replace:
  "x \<notin> set old \<Longrightarrow> count_list (str_replace old [] s) x = count_list s x"
proof (induction old "[] :: string" s rule: str_replace.induct)
  case (1 old)
  then show ?case by simp
next
  case (2 old c cs)
  show ?case
  proof (cases "old \<noteq> [] \<and> prefix old (c # cs)")
    case True
    then obtain rest where r: "c # cs = old @ rest" by (auto simp: prefix_def)
    then have d: "drop (length old) (c # cs) = rest" by simp
    have "count_list (c # cs) x = count_list rest x"
      using 2(3) by (simp only: r count_list_append) simp
    with 2 True d show ?thesis by simp
  next
    case False
    with 2 show ?thesis by auto
  qed
qed

lemma first_name_differs:
  "filename \<noteq> str_replace ''.csv'' [] filename @ ''_'' @ d @ ''.csv''"
proof
  assume a: "filename = str_replace ''.csv'' [] filename @ ''_'' @ d @ ''.csv''"
  have "count_list (str_replace ''.csv'' [] filename) CHR ''_'' = count_list filename CHR ''_''"
    by (rule count_str_replace) simp
  moreover have "count_list filename CHR ''_'' =
      count_list (str_replace ''.csv'' [] filename @ ''_'' @ d @ ''.csv'') CHR ''_''"
    using a by simp
  ultimately show False by (simp del: count_list.simps add: count_list_append) simp
qed

lemma seg_name_inj: "seg_name timestamp filename j = seg_name timestamp filename k \<Longrightarrow> j = k"
  using first_name_differs [of filename "str_int (int j + 1)"]
    first_name_differs [of filename "str_int (int k + 1)"]
  by (auto simp: seg_name_def str_int_index split: if_splits dest: str_nat_inj)

lemma seg_name_prefix: "prefix (job_prefix timestamp) (seg_name timestamp filename k)"
  by (simp add: job_prefix_def seg_name_def)

lemma replace_only_suffix:
  "\<not> contains ''.csv'' stem \<Longrightarrow> str_replace ''.csv'' [] (stem @ ''.csv'') = stem"
proof (induction stem)
  case Nil
  then show ?case by simp
next
  case (Cons c cs)
  then have n: "\<not> prefix ''.csv'' (c # cs)" and r: "\<not> contains ''.csv'' cs" by auto
  have np: "\<not> prefix ''.csv'' (c # cs @ ''.csv'')"
  proof
    assume p: "prefix ''.csv'' (c # cs @ ''.csv'')"
    show False
    proof (cases cs)
      case Nil
      with p show ?thesis by simp
    next
      case (Cons c1 cs1)
      note l1 = Cons
      show ?thesis
      proof (cases cs1)
        case Nil
        with p l1 show ?thesis by simp
      next
        case (Cons c2 cs2)
        note l2 = Cons
        show ?thesis
        proof (cases cs2)
          case Nil
          with p l1 l2 show ?thesis by simp
        next
          case (Cons c3 cs3)
          with p l1 l2 n show ?thesis by simp
        qed
      qed
    qed
  qed
  have "str_replace ''.csv'' [] (c # cs @ ''.csv'') = c # str_replace ''.csv'' [] (cs @ ''.csv'')"
    by (simp only: str_replace.simps np simp_thms if_False)
  with Cons.IH [OF r] show ?case by (simp only: append_Cons)
qed

section \<open>The upload loop\<close>

lemma ready_fixed: "m_client mgr \<noteq> None \<Longrightarrow> ready_manager e mgr = mgr"
  by (auto simp: ready_manager_def initialize_client_def)

lemma ready_has_client: "client_ready e mgr \<Longrightarrow> m_client (ready_manager e mgr) \<noteq> None"
  by (auto simp: client_ready_def config_ok_def ready_manager_def initialize_client_def Let_def
      split: option.splits)

lemma ready_idem:
  "client_ready e mgr \<Longrightarrow> ready_manager e (ready_manager e mgr) = ready_manager e mgr"
  by (rule ready_fixed) (rule ready_has_client)

lemma ready_client_ready: "client_ready e mgr \<Longrightarrow> client_ready e (ready_manager e mgr)"
  using ready_has_client [of e mgr] by (simp add: client_ready_def)

lemma upload_csv_ok:
  assumes "healthy e" and "client_ready e mgr"
  shows "upload_file_streaming e mgr s (Bytes text) object_name =
           (None, ready_manager e mgr, stored e object_name text s)"
proof -
  obtain c where i: "initialize_client e mgr = (Inr c, ready_manager e mgr)"
    using initialize_client_ready [OF assms(2)] by blast
  show ?thesis
    using assms(1)
    by (simp add: upload_file_streaming_def i put_object_def healthy_def stored_def
        csv_object_def Let_def)
qed

lemma finalize_ok:
  assumes "healthy e" and "client_ready e (self_mgr st)"
    and "current_file_buffer st \<noteq> []"
    and "file_index st = int (length (uploaded_files st)) + 1"
  shows "finalize_current_file e filename timestamp st =
           Inr (st\<lparr>self_mgr := ready_manager e (self_mgr st),
                   the_store := stored e (seg_name timestamp filename (length (uploaded_files st)))
                                  (current_file_buffer st) (the_store st),
                   uploaded_files := uploaded_files st @
                      [seg_name timestamp filename (length (uploaded_files st))],
                   current_file_buffer := [],
                   current_file_rows := 0,
                   file_index := file_index st + 1\<rparr>)"
proof -
  have n: "''exports/'' @ timestamp @ ''_'' @
           (if length (uploaded_files st) > 0
            then str_replace ''.csv'' [] filename @ ''_'' @ str_int (file_index st) @ ''.csv''
            else filename) = seg_name timestamp filename (length (uploaded_files st))"
    by (simp add: seg_name_def assms(4))
  show ?thesis
    unfolding finalize_current_file_def Let_def n
    using assms(3) by (simp add: upload_csv_ok [OF assms(1) assms(2)])
qed

lemma render_snoc: "render h (cur @ [r]) = render h cur @ r @ [newline]"
  by (simp add: render_def)

lemma render_Nil: "render h [] = h @ [newline]"
  by (simp add: render_def)

lemma render_nonempty: "render h rows \<noteq> []"
  by (simp add: render_def)

lemma rows_loop:
  assumes "healthy e" and "0 < m"
  shows "client_ready e (self_mgr st) \<Longrightarrow> header st = Some h \<Longrightarrow>
         \<forall>r\<in>set rs. strip r \<noteq> [] \<Longrightarrow>
         current_file_buffer st = render h cur \<Longrightarrow>
         current_file_rows st = int (length cur) \<Longrightarrow> length cur \<le> m \<Longrightarrow>
         file_index st = int (length (uploaded_files st)) + 1 \<Longrightarrow>
         process_lines e filename timestamp (int m) st rs =
           Inr (after_rows e timestamp filename h m st cur rs)"
proof (induction rs arbitrary: st cur)
  case Nil
  then show ?case
    by (simp add: after_rows_def segments_small)
next
  case (Cons r rs)
  show ?case
  proof (cases "length cur < m")
    case True
    define st1 where "st1 = st\<lparr>current_file_buffer := render h (cur @ [r]),
        current_file_rows := int (length (cur @ [r])), total_rows := total_rows st + 1\<rparr>"
    have step: "process_line e filename timestamp (int m) st r = Inr st1"
      using True Cons.prems by (simp add: process_line_def st1_def render_snoc)
    have ih: "process_lines e filename timestamp (int m) st1 rs =
                Inr (after_rows e timestamp filename h m st1 (cur @ [r]) rs)"
      using True Cons.prems by (intro Cons.IH) (simp_all add: st1_def)
    have "after_rows e timestamp filename h m st1 (cur @ [r]) rs =
          after_rows e timestamp filename h m st cur (r # rs)"
      by (simp add: after_rows_def st1_def Let_def)
    with step ih show ?thesis by simp
  next
    case False
    with Cons.prems have full: "length cur = m" by simp
    define k where "k = length (uploaded_files st)"
    define st1 where "st1 = st\<lparr>self_mgr := ready_manager e (self_mgr st),
        the_store := stored e (seg_name timestamp filename k) (render h cur) (the_store st),
        uploaded_files := uploaded_files st @ [seg_name timestamp filename k],
        current_file_buffer := render h [r],
        current_file_rows := 1,
        file_index := file_index st + 1,
        total_rows := total_rows st + 1\<rparr>"
    have fin: "finalize_current_file e filename timestamp st =
           Inr (st\<lparr>self_mgr := ready_manager e (self_mgr st),
                   the_store := stored e (seg_name timestamp filename k)
                                  (current_file_buffer st) (the_store st),
                   uploaded_files := uploaded_files st @ [seg_name timestamp filename k],
                   current_file_buffer := [],
                   current_file_rows := 0,
                   file_index := file_index st + 1\<rparr>)"
      unfolding k_def using Cons.prems
      by (intro finalize_ok [OF assms(1)]) (simp_all add: render_nonempty)
    have step: "process_line e filename timestamp (int m) st r = Inr st1"
      using full Cons.prems
      by (simp add: process_line_def fin st1_def render_def)
    have ih: "process_lines e filename timestamp (int m) st1 rs =
                Inr (after_rows e timestamp filename h m st1 [r] rs)"
      using assms(2) Cons.prems
      by (intro Cons.IH) (simp_all add: st1_def ready_client_ready)
    have seg: "segments_of m (cur @ r # rs) = cur # segments_of m (r # rs)"
      using full assms(2) by (simp add: segments_big)
    have ne: "segments_of m (r # rs) \<noteq> []" by (rule segments_nonempty)
    then obtain n' where len: "length (segments_of m (r # rs)) = Suc n'"
      by (cases "segments_of m (r # rs)") auto
    have up: "[k..<k + Suc n'] = k # [Suc k..<Suc k + n']"
      by (simp add: upt_rec)
    have "after_rows e timestamp filename h m st1 [r] rs =
          after_rows e timestamp filename h m st cur (r # rs)"
      using ne Cons.prems(1)
      by (simp add: after_rows_def st1_def Let_def seg k_def [symmetric] len upt_conv_Cons
          ready_idem)
    with step ih show ?thesis by simp
  qed
qed

section \<open>From chunks to uploaded segments\<close>

lemma all_lines_Cons:
  "all_lines (c # cs) = filter (\<lambda>l. strip l \<noteq> []) (split_on newline c) @ all_lines cs"
  by (simp add: all_lines_def)

lemma all_lines_nonblank: "l \<in> set (all_lines chunks) \<Longrightarrow> strip l \<noteq> []"
  by (auto simp: all_lines_def)

lemma chunks_as_lines:
  "\<forall>c\<in>set chunks. \<not> contains ''__STREAM_ERROR__'' c \<Longrightarrow>
   process_chunks e f t m st chunks = process_lines e f t m st (all_lines chunks)"
proof (induction chunks arbitrary: st)
  case Nil
  then show ?case by (simp add: all_lines_def)
next
  case (Cons c cs)
  then have n: "\<not> contains ''__STREAM_ERROR__'' c"
    and r: "\<forall>c\<in>set cs. \<not> contains ''__STREAM_ERROR__'' c" by auto
  show ?case
    unfolding all_lines_Cons process_lines_append process_lines_filter
    using n Cons.IH [OF r] by (simp split: sum.splits)
qed

lemma store_segments_snoc:
  "store_segments e t f h k (segs @ [seg]) s =
     stored e (seg_name t f (k + length segs)) (render h seg) (store_segments e t f h k segs s)"
  by (induction segs arbitrary: k s) auto

lemma segments_phase:
  assumes "healthy e" and "client_ready e mgr" and "0 < m"
    and "\<forall>c\<in>set chunks. \<not> contains ''__STREAM_ERROR__'' c"
    and "all_lines chunks = h # rows"
  shows "\<exists>st1. process_chunks e f t (int m) (initial_state mgr s) chunks = Inr st1 \<and>
           finalize_current_file e f t st1 =
             Inr (uploaded_state e mgr s t f h (segments_of m rows) (int (length rows)))"
proof -
  define segs where "segs = segments_of m rows"
  define sth where "sth = (initial_state mgr s)\<lparr>header := Some h,
      current_file_buffer := render h []\<rparr>"
  define st1 where "st1 = after_rows e t f h m sth [] rows"
  have nb: "strip h \<noteq> []" "\<forall>r\<in>set rows. strip r \<noteq> []"
    using all_lines_nonblank [of _ chunks] assms(5) by auto
  have first: "process_line e f t (int m) (initial_state mgr s) h = Inr sth"
    using nb(1) by (simp add: process_line_def initial_state_def sth_def render_Nil)
  have loop: "process_lines e f t (int m) sth rows = Inr st1"
    unfolding st1_def
    using assms(2) nb(2)
    by (intro rows_loop [OF assms(1) assms(3)]) (simp_all add: sth_def initial_state_def)
  have run: "process_chunks e f t (int m) (initial_state mgr s) chunks = Inr st1"
    by (simp add: chunks_as_lines [OF assms(4)] assms(5) first loop)
  have ne: "segs \<noteq> []" unfolding segs_def by (rule segments_nonempty)
  then have bl: "butlast segs @ [last segs] = segs" by simp
  obtain n' where len: "length segs = Suc n'" using ne by (cases segs) auto
  have ready: "client_ready e (self_mgr st1)"
    using assms(2)
    by (simp add: st1_def after_rows_def Let_def sth_def initial_state_def ready_client_ready)
  have fields: "current_file_buffer st1 = render h (last segs)"
    "uploaded_files st1 = map (seg_name t f) [0..<n']"
    "file_index st1 = int n' + 1"
    "the_store st1 = store_segments e t f h 0 (butlast segs) s"
    "total_rows st1 = int (length rows)"
    "header st1 = Some h"
    "ready_manager e (self_mgr st1) = ready_manager e mgr"
    using len assms(2)
    by (simp_all add: st1_def after_rows_def Let_def sth_def initial_state_def
        segs_def [symmetric] ready_idem)
  have st: "stored e (seg_name t f n') (render h (last segs))
              (store_segments e t f h 0 (butlast segs) s) = store_segments e t f h 0 segs s"
    using store_segments_snoc [of e t f h 0 "butlast segs" "last segs" s] bl len by simp
  have fin: "finalize_current_file e f t st1 =
               Inr (uploaded_state e mgr s t f h segs (int (length rows)))"
    using fields len st
    by (subst finalize_ok [OF assms(1) ready])
       (simp_all add: render_nonempty uploaded_state_def)
  from run fin show ?thesis unfolding segs_def by blast
qed

section \<open>Consolidation into an archive\<close>

lemma stored_objects:
  "map_of (objects (stored e n text s)) = (map_of (objects s))(n \<mapsto> csv_object e n text)"
  by (simp add: stored_def update_conv')

lemma store_segments_other:
  "\<forall>j. k \<le> j \<and> j < k + length segs \<longrightarrow> seg_name t f j \<noteq> n \<Longrightarrow>
   map_of (objects (store_segments e t f h k segs s)) n = map_of (objects s) n"
proof (induction segs arbitrary: k s)
  case Nil
  then show ?case by simp
next
  case (Cons seg segs)
  have a: "\<forall>j. Suc k \<le> j \<and> j < Suc k + length segs \<longrightarrow> seg_name t f j \<noteq> n"
    using Cons.prems by auto
  have b: "seg_name t f k \<noteq> n" using Cons.prems by auto
  show ?case
    using b by (simp add: Cons.IH [OF a] stored_objects)
qed

lemma store_segments_lookup:
  "i < length segs \<Longrightarrow>
   map_of (objects (store_segments e t f h k segs s)) (seg_name t f (k + i)) =
     Some (csv_object e (seg_name t f (k + i)) (render h (segs ! i)))"
proof (induction segs arbitrary: k s i)
  case Nil
  then show ?case by simp
next
  case (Cons seg segs)
  show ?case
  proof (cases i)
    case 0
    have "\<forall>j. Suc k \<le> j \<and> j < Suc k + length segs \<longrightarrow> seg_name t f j \<noteq> seg_name t f k"
      by (auto dest: seg_name_inj)
    then show ?thesis
      using 0 by (simp add: store_segments_other stored_objects)
  next
    case (Suc j)
    with Cons.prems have "j < length segs" by simp
    from Cons.IH [OF this, of "Suc k"] Suc show ?thesis by simp
  qed
qed

lemma store_segments_trace:
  "trace (store_segments e t f h k segs s) =
     trace s @ map (\<lambda>i. Put (seg_name t f (k + i)) (Bytes (render h (segs ! i)))) [0..<length segs]"
proof (induction segs arbitrary: k s)
  case Nil
  then show ?case by simp
next
  case (Cons seg segs)
  have "map (\<lambda>i. Put (seg_name t f (k + i)) (Bytes (render h ((seg # segs) ! i))))
          [0..<length (seg # segs)] =
        Put (seg_name t f k) (Bytes (render h seg)) #
        map (\<lambda>i. Put (seg_name t f (Suc k + i)) (Bytes (render h (segs ! i)))) [0..<length segs]"
    by (simp add: upt_conv_Cons map_Suc_upt [symmetric] del: upt_Suc)
  then show ?case by (simp add: Cons.IH stored_def)
qed

lemma store_segments_keys:
  "fst ` set (objects (store_segments e t f h k segs s)) =
     fst ` set (objects s) \<union> seg_name t f ` {k..<k + length segs}"
proof (induction segs arbitrary: k s)
  case Nil
  then show ?case by simp
next
  case (Cons seg segs)
  have "{k..<k + length (seg # segs)} = insert k {Suc k..<Suc k + length segs}" by auto
  then show ?case by (auto simp: Cons.IH stored_def dom_update)
qed

lemma segment_puts_append: "segment_puts (xs @ ys) = segment_puts xs @ segment_puts ys"
  by (induction xs rule: segment_puts.induct) auto

lemma segment_puts_uploads:
  "segment_puts (map (\<lambda>i. Put (name i) (Bytes (text i))) is) = map (\<lambda>i. (name i, text i)) is"
  by (induction "is") auto

lemma segment_puts_moves: "segment_puts (concat (map (\<lambda>n. [Get n, Remove n]) ns)) = []"
  by (induction ns) auto

lemma writestr_ok:
  "entry_name_ok n \<Longrightarrow>
   writestr acc (last (split_on CHR ''/'' n)) data = Inr (acc @ [(arcname n, data)])"
  by (simp add: writestr_def entry_name_ok_def arcname_def bare_name_def Let_def)

lemma writestr_refused:
  "\<not> entry_name_ok n \<Longrightarrow>
   writestr acc (last (split_on CHR ''/'' n)) data = Inl IndexError \<or>
   writestr acc (last (split_on CHR ''/'' n)) data = Inl StructError"
  by (auto simp: writestr_def entry_name_ok_def arcname_def bare_name_def Let_def)

lemma add_entries_ok:
  assumes "healthy e"
  shows "distinct names \<Longrightarrow> \<forall>n\<in>set names. map_of (objects s) n \<noteq> None \<Longrightarrow>
         list_all entry_name_ok names \<Longrightarrow>
         add_entries e s acc names =
           Inr (acc @ map (\<lambda>n. (arcname n, content (the (map_of (objects s) n)))) names,
                s\<lparr>objects := fold AList.delete names (objects s),
                  trace := trace s @ concat (map (\<lambda>n. [Get n, Remove n]) names)\<rparr>)"
proof (induction names arbitrary: s acc)
  case Nil
  then show ?case by simp
next
  case (Cons n ns)
  from Cons.prems obtain obj where o: "map_of (objects s) n = Some obj" by auto
  define s2 where "s2 = s\<lparr>trace := trace s @ [Get n, Remove n],
      objects := AList.delete n (objects s)\<rparr>"
  have g: "get_object e s n = (Inr (content obj), s\<lparr>trace := trace s @ [Get n]\<rparr>)"
    using assms o by (simp add: get_object_def healthy_def Let_def)
  have w: "writestr acc (last (split_on CHR ''/'' n)) (content obj) =
             Inr (acc @ [(arcname n, content obj)])"
    using Cons.prems(3) by (intro writestr_ok) simp
  have r: "remove_object e (s\<lparr>trace := trace s @ [Get n]\<rparr>) n = (None, s2)"
    using assms by (simp add: remove_object_def healthy_def Let_def s2_def)
  have d: "distinct ns" and nn: "n \<notin> set ns" using Cons.prems by auto
  have same: "map_of (objects s2) x = map_of (objects s) x" if "x \<in> set ns" for x
  proof -
    from that nn have "x \<noteq> n" by auto
    then show ?thesis by (simp add: s2_def)
  qed
  have p: "\<forall>x\<in>set ns. map_of (objects s2) x \<noteq> None"
    using Cons.prems(2) same by simp
  have a: "list_all entry_name_ok ns" using Cons.prems(3) by simp
  have m: "map (\<lambda>n. (arcname n, content (the (map_of (objects s2) n)))) ns =
           map (\<lambda>n. (arcname n, content (the (map_of (objects s) n)))) ns"
    using same by (intro map_cong) auto
  have ih: "add_entries e s2 (acc @ [(arcname n, content obj)]) ns =
      Inr ((acc @ [(arcname n, content obj)]) @
             map (\<lambda>n. (arcname n, content (the (map_of (objects s) n)))) ns,
           s2\<lparr>objects := fold AList.delete ns (objects s2),
              trace := trace s2 @ concat (map (\<lambda>n. [Get n, Remove n]) ns)\<rparr>)"
    unfolding m [symmetric] by (rule Cons.IH [OF d p a])
  have st: "s2\<lparr>objects := fold AList.delete ns (objects s2),
              trace := trace s2 @ concat (map (\<lambda>n. [Get n, Remove n]) ns)\<rparr> =
            s\<lparr>objects := fold AList.delete (n # ns) (objects s),
              trace := trace s @ concat (map (\<lambda>n. [Get n, Remove n]) (n # ns))\<rparr>"
    by (simp add: s2_def)
  have step: "add_entries e s acc (n # ns) =
              add_entries e s2 (acc @ [(arcname n, content obj)]) ns"
    by (simp add: g w r)
  show ?case
    unfolding step ih st using o by simp
qed

lemma add_entries_refused:
  assumes "healthy e"
  shows "distinct names \<Longrightarrow> \<forall>n\<in>set names. map_of (objects s) n \<noteq> None \<Longrightarrow>
         \<not> list_all entry_name_ok names \<Longrightarrow>
         \<exists>err s' cs. add_entries e s acc names = Inl (err, s') \<and>
            (err = IndexError \<or> err = StructError) \<and>
            trace s' = trace s @ cs \<and> segment_puts cs = []"
proof (induction names arbitrary: s acc)
  case Nil
  then show ?case by simp
next
  case (Cons n ns)
  from Cons.prems obtain obj where o: "map_of (objects s) n = Some obj" by auto
  have g: "get_object e s n = (Inr (content obj), s\<lparr>trace := trace s @ [Get n]\<rparr>)"
    using assms o by (simp add: get_object_def healthy_def Let_def)
  show ?case
  proof (cases "entry_name_ok n")
    case False
    from writestr_refused [OF False, of acc "content obj"] show ?thesis
      by (auto simp: g)
  next
    case True
    define s2 where "s2 = s\<lparr>trace := trace s @ [Get n, Remove n],
        objects := AList.delete n (objects s)\<rparr>"
    have w: "writestr acc (last (split_on CHR ''/'' n)) (content obj) =
               Inr (acc @ [(arcname n, content obj)])"
      using True by (rule writestr_ok)
    have r: "remove_object e (s\<lparr>trace := trace s @ [Get n]\<rparr>) n = (None, s2)"
      using assms by (simp add: remove_object_def healthy_def Let_def s2_def)
    have d: "distinct ns" and nn: "n \<notin> set ns" using Cons.prems by auto
    have p: "\<forall>x\<in>set ns. map_of (objects s2) x \<noteq> None"
    proof
      fix x assume x: "x \<in> set ns"
      with nn have "x \<noteq> n" by auto
      then have "map_of (objects s2) x = map_of (objects s) x" by (simp add: s2_def)
      with Cons.prems(2) x show "map_of (objects s2) x \<noteq> None" by simp
    qed
    have a: "\<not> list_all entry_name_ok ns" using Cons.prems(3) True by simp
    from Cons.IH [OF d p a, of "acc @ [(arcname n, content obj)]"]
    obtain err s' cs where ih:
      "add_entries e s2 (acc @ [(arcname n, content obj)]) ns = Inl (err, s')"
      "err = IndexError \<or> err = StructError" "trace s' = trace s2 @ cs" "segment_puts cs = []"
      by blast
    have step: "add_entries e s acc (n # ns) =
                add_entries e s2 (acc @ [(arcname n, content obj)]) ns"
      by (simp add: g w r)
    have "trace s' = trace s @ ([Get n, Remove n] @ cs)" using ih(3) by (simp add: s2_def)
    moreover have "segment_puts ([Get n, Remove n] @ cs) = []" using ih(4) by simp
    ultimately have "add_entries e s acc (n # ns) = Inl (err, s') \<and>
        (err = IndexError \<or> err = StructError) \<and>
        trace s' = trace s @ ([Get n, Remove n] @ cs) \<and>
        segment_puts ([Get n, Remove n] @ cs) = []"
      using step ih(1) ih(2) by simp
    then show ?thesis by (intro exI)
  qed
qed

lemma upload_zip_ok:
  assumes "healthy e" and "m_client mgr \<noteq> None"
  shows "upload_file_streaming e mgr s (Zip entries) object_name =
           (None, mgr,
            s\<lparr>objects := AList.update object_name (zip_object e object_name entries) (objects s),
              trace := trace s @ [Put object_name (Zip entries)]\<rparr>)"
proof -
  have "client_ready e mgr" using assms(2) by (simp add: client_ready_def)
  then obtain c where i: "initialize_client e mgr = (Inr c, ready_manager e mgr)"
    using initialize_client_ready by blast
  show ?thesis
    using assms(1)
    by (simp add: upload_file_streaming_def i put_object_def healthy_def zip_object_def
        Let_def ready_fixed [OF assms(2)])
qed

lemma segment_names_distinct: "distinct (segment_names t f n)"
  unfolding segment_names_def
  by (simp add: distinct_map inj_on_def) (auto dest: seg_name_inj)

lemma segments_present:
  "\<forall>n\<in>set (segment_names t f (length segs)).
     map_of (objects (store_segments e t f h 0 segs s)) n \<noteq> None"
  using store_segments_lookup [of _ segs e t f h 0 s] by (auto simp: segment_names_def)

lemma create_zip_ok:
  assumes "healthy e" and "m_client mgr \<noteq> None"
    and "list_all entry_name_ok (segment_names t f (length segs))"
  shows "create_zip_from_uploaded_files e mgr (store_segments e t f h 0 segs s)
           (segment_names t f (length segs)) (zip_name t f) =
           (Inr (zip_name t f), mgr,
            consolidated e t f h segs (store_segments e t f h 0 segs s))"
proof -
  define s1 where "s1 = store_segments e t f h 0 segs s"
  have "client_ready e mgr" using assms(2) by (simp add: client_ready_def)
  then obtain c where i: "initialize_client e mgr = (Inr c, mgr)"
    using initialize_client_ready ready_fixed [OF assms(2)] by metis
  have look: "\<And>k. k < length segs \<Longrightarrow>
      map_of (objects s1) (seg_name t f k) = Some (csv_object e (seg_name t f k) (render h (segs ! k)))"
    unfolding s1_def using store_segments_lookup [of _ segs e t f h 0 s] by simp
  have present: "\<forall>n\<in>set (segment_names t f (length segs)). map_of (objects s1) n \<noteq> None"
    unfolding s1_def by (rule segments_present)
  have ent: "map (\<lambda>n. (arcname n, content (the (map_of (objects s1) n))))
               (segment_names t f (length segs)) = archive_entries t f h segs"
    unfolding segment_names_def archive_entries_def map_map
    by (rule map_cong) (simp_all add: look csv_object_def)
  have add: "add_entries e s1 [] (segment_names t f (length segs)) =
      Inr (archive_entries t f h segs,
           s1\<lparr>objects := fold AList.delete (segment_names t f (length segs)) (objects s1),
              trace := trace s1 @
                concat (map (\<lambda>n. [Get n, Remove n]) (segment_names t f (length segs)))\<rparr>)"
    using add_entries_ok [OF assms(1) segment_names_distinct present assms(3), of "[]"] ent
    by simp
  show ?thesis
    unfolding s1_def [symmetric]
    by (simp add: create_zip_from_uploaded_files_def i add
        upload_zip_ok [OF assms(1) assms(2)] consolidated_def)
qed

lemma create_zip_refused:
  assumes "healthy e" and "m_client mgr \<noteq> None"
    and "\<not> list_all entry_name_ok (segment_names t f (length segs))"
  shows "\<exists>err s' cs.
           create_zip_from_uploaded_files e mgr (store_segments e t f h 0 segs s)
             (segment_names t f (length segs)) (zip_name t f) = (Inl err, mgr, s') \<and>
           (err = IndexError \<or> err = StructError) \<and>
           trace s' = trace (store_segments e t f h 0 segs s) @ cs \<and> segment_puts cs = []"
proof -
  have "client_ready e mgr" using assms(2) by (simp add: client_ready_def)
  then obtain c where i: "initialize_client e mgr = (Inr c, mgr)"
    using initialize_client_ready ready_fixed [OF assms(2)] by metis
  have present: "\<forall>n\<in>set (segment_names t f (length segs)).
      map_of (objects (store_segments e t f h 0 segs s)) n \<noteq> None"
    by (rule segments_present)
  from add_entries_refused [OF assms(1) segment_names_distinct present assms(3),
      where acc = "[]"]
  obtain err s' cs where a:
    "add_entries e (store_segments e t f h 0 segs s) [] (segment_names t f (length segs)) =
       Inl (err, s')"
    "err = IndexError \<or> err = StructError"
    "trace s' = trace (store_segments e t f h 0 segs s) @ cs" "segment_puts cs = []"
    by blast
  have "create_zip_from_uploaded_files e mgr (store_segments e t f h 0 segs s)
          (segment_names t f (length segs)) (zip_name t f) = (Inl err, mgr, s')"
    by (simp add: create_zip_from_uploaded_files_def i a(1))
  with a show ?thesis by blast
qed

section \<open>What a run does\<close>

lemma run_store_calls:
  "segment_puts (new_calls s (run_store e t f h segs s)) =
     map (\<lambda>i. (seg_name t f i, render h (segs ! i))) [0..<length segs]"
  by (simp add: run_store_def consolidated_def new_calls_def store_segments_trace
      segment_puts_append segment_puts_uploads segment_puts_moves)

lemma stream_run:
  assumes "healthy e" and "client_ready e mgr" and "0 < m"
    and "\<forall>c\<in>set chunks. \<not> contains ''__STREAM_ERROR__'' c"
    and "all_lines chunks = h # rows"
    and "can_consolidate t f (length (segments_of m rows))"
  shows "stream_csv_to_minio e mgr s chunks f t (Some (int m)) =
           (Inr (if length (segments_of m rows) > 1 then zip_name t f else seg_name t f 0,
                 int (length rows), int (length (segments_of m rows))),
            ready_manager e mgr,
            run_store e t f h (segments_of m rows) s)"
proof -
  define segs where "segs = segments_of m rows"
  obtain st1 where run: "process_chunks e f t (int m) (initial_state mgr s) chunks = Inr st1"
    and fin: "finalize_current_file e f t st1 =
                Inr (uploaded_state e mgr s t f h segs (int (length rows)))"
    using segments_phase [OF assms(1-5)] unfolding segs_def by blast
  have ne: "segs \<noteq> []" unfolding segs_def by (rule segments_nonempty)
  have c: "m_client (ready_manager e mgr) \<noteq> None" using assms(2) by (rule ready_has_client)
  show ?thesis
  proof (cases "length segs > 1")
    case True
    with assms(6) have ok: "list_all entry_name_ok (segment_names t f (length segs))"
      by (simp add: can_consolidate_def segs_def)
    show ?thesis
      unfolding segs_def [symmetric]
      using True ne create_zip_ok [OF assms(1) c ok, of h s]
      by (simp add: stream_csv_to_minio_def run fin uploaded_state_def run_store_def
          segment_names_def zip_name_def)
  next
    case False
    with ne have one: "length segs = 1" by (cases segs) auto
    show ?thesis
      unfolding segs_def [symmetric]
      using one
      by (simp add: stream_csv_to_minio_def run fin uploaded_state_def run_store_def)
  qed
qed

lemma stream_refused:
  assumes "healthy e" and "client_ready e mgr" and "0 < m"
    and "\<forall>c\<in>set chunks. \<not> contains ''__STREAM_ERROR__'' c"
    and "all_lines chunks = h # rows"
    and "\<not> can_consolidate t f (length (segments_of m rows))"
  shows "\<exists>err s'. stream_csv_to_minio e mgr s chunks f t (Some (int m)) =
             (Inl err, ready_manager e mgr, s') \<and>
           (err = IndexError \<or> err = StructError) \<and>
           segment_puts (new_calls s s') =
             map (\<lambda>i. (seg_name t f i, render h (segments_of m rows ! i)))
               [0..<length (segments_of m rows)]"
proof -
  define segs where "segs = segments_of m rows"
  obtain st1 where run: "process_chunks e f t (int m) (initial_state mgr s) chunks = Inr st1"
    and fin: "finalize_current_file e f t st1 =
                Inr (uploaded_state e mgr s t f h segs (int (length rows)))"
    using segments_phase [OF assms(1-5)] unfolding segs_def by blast
  have c: "m_client (ready_manager e mgr) \<noteq> None" using assms(2) by (rule ready_has_client)
  from assms(6) have multi: "1 < length segs"
    and bad: "\<not> list_all entry_name_ok (segment_names t f (length segs))"
    by (simp_all add: can_consolidate_def segs_def)
  from create_zip_refused [OF assms(1) c bad, of h s]
  obtain err s' cs where z:
    "create_zip_from_uploaded_files e (ready_manager e mgr) (store_segments e t f h 0 segs s)
       (segment_names t f (length segs)) (zip_name t f) = (Inl err, ready_manager e mgr, s')"
    "err = IndexError \<or> err = StructError"
    "trace s' = trace (store_segments e t f h 0 segs s) @ cs" "segment_puts cs = []"
    by blast
  have ne: "segs \<noteq> []" using multi by auto
  have r: "stream_csv_to_minio e mgr s chunks f t (Some (int m)) =
             (Inl err, ready_manager e mgr, s')"
    using multi ne z(1)
    by (simp add: stream_csv_to_minio_def run fin uploaded_state_def segment_names_def
        zip_name_def)
  have p: "segment_puts (new_calls s s') =
             map (\<lambda>i. (seg_name t f i, render h (segs ! i))) [0..<length segs]"
    by (simp add: new_calls_def z(3) z(4) store_segments_trace segment_puts_append
        segment_puts_uploads)
  from r z(2) p show ?thesis unfolding segs_def by blast
qed

lemma stream_run_int:
  assumes "healthy e" and "client_ready e mgr" and "0 < m"
    and "\<forall>c\<in>set chunks. \<not> contains ''__STREAM_ERROR__'' c"
    and "all_lines chunks \<noteq> []"
    and "can_consolidate t f (length (segments_of (nat m) (data_rows chunks)))"
  shows "stream_csv_to_minio e mgr s chunks f t (Some m) =
           (Inr (if length (segments_of (nat m) (data_rows chunks)) > 1
                 then zip_name t f else seg_name t f 0,
                 int (length (data_rows chunks)),
                 int (length (segments_of (nat m) (data_rows chunks)))),
            ready_manager e mgr,
            run_store e t f (header_of chunks) (segments_of (nat m) (data_rows chunks)) s)"
proof -
  have a: "all_lines chunks = header_of chunks # data_rows chunks"
    using assms(5) by (simp add: header_of_def data_rows_def)
  have p: "0 < nat m" using assms(3) by simp
  have "int (nat m) = m" using assms(3) by simp
  with stream_run [OF assms(1) assms(2) p assms(4) a assms(6), of s] show ?thesis by simp
qed

lemma stream_refused_int:
  assumes "healthy e" and "client_ready e mgr" and "0 < m"
    and "\<forall>c\<in>set chunks. \<not> contains ''__STREAM_ERROR__'' c"
    and "all_lines chunks \<noteq> []"
    and "\<not> can_consolidate t f (length (segments_of (nat m) (data_rows chunks)))"
  shows "\<exists>err s'. stream_csv_to_minio e mgr s chunks f t (Some m) =
             (Inl err, ready_manager e mgr, s') \<and>
           (err = IndexError \<or> err = StructError) \<and>
           segment_puts (new_calls s s') =
             map (\<lambda>i. (seg_name t f i,
                       render (header_of chunks) (segments_of (nat m) (data_rows chunks) ! i)))
               [0..<length (segments_of (nat m) (data_rows chunks))]"
proof -
  have a: "all_lines chunks = header_of chunks # data_rows chunks"
    using assms(5) by (simp add: header_of_def data_rows_def)
  have p: "0 < nat m" using assms(3) by simp
  have "int (nat m) = m" using assms(3) by simp
  with stream_refused [OF assms(1) assms(2) p assms(4) a assms(6), of s] show ?thesis by simp
qed

lemma stream_segment_puts:
  assumes "healthy e" and "client_ready e mgr" and "0 < m"
    and "\<forall>c\<in>set chunks. \<not> contains ''__STREAM_ERROR__'' c"
    and "all_lines chunks \<noteq> []"
  shows "segment_puts (stream_calls e mgr s chunks f t (Some m)) =
           map (\<lambda>i. (seg_name t f i,
                     render (header_of chunks) (segments_of (nat m) (data_rows chunks) ! i)))
             [0..<length (segments_of (nat m) (data_rows chunks))]"
proof (cases "can_consolidate t f (length (segments_of (nat m) (data_rows chunks)))")
  case True
  show ?thesis
    by (simp only: stream_calls_def stream_run_int [OF assms True] snd_conv run_store_calls)
next
  case False
  from stream_refused_int [OF assms False, of s] show ?thesis
    by (auto simp: stream_calls_def)
qed

lemma stream_total_rows:
  assumes "healthy e" and "client_ready e mgr" and "0 < m"
    and "\<forall>c\<in>set chunks. \<not> contains ''__STREAM_ERROR__'' c"
    and "all_lines chunks \<noteq> []"
  shows "total_rows_of (stream_csv_to_minio e mgr s chunks f t (Some m)) =
           (if can_consolidate t f (length (segments_of (nat m) (data_rows chunks)))
            then Some (int (length (data_rows chunks))) else None)"
proof (cases "can_consolidate t f (length (segments_of (nat m) (data_rows chunks)))")
  case True
  then show ?thesis
    by (simp add: total_rows_of_def stream_run_int [OF assms True])
next
  case False
  from stream_refused_int [OF assms False, of s] False show ?thesis
    by (auto simp: total_rows_of_def)
qed

lemma stream_file_count:
  assumes "healthy e" and "client_ready e mgr" and "0 < m"
    and "\<forall>c\<in>set chunks. \<not> contains ''__STREAM_ERROR__'' c"
    and "all_lines chunks \<noteq> []"
  shows "file_count_of (stream_csv_to_minio e mgr s chunks f t (Some m)) =
           (if can_consolidate t f (length (segments_of (nat m) (data_rows chunks)))
            then Some (int (length (segments_of (nat m) (data_rows chunks)))) else None)"
proof (cases "can_consolidate t f (length (segments_of (nat m) (data_rows chunks)))")
  case True
  then show ?thesis
    by (simp add: file_count_of_def stream_run_int [OF assms True])
next
  case False
  from stream_refused_int [OF assms False, of s] False show ?thesis
    by (auto simp: file_count_of_def)
qed



section \<open>Number of segments and the counts returned\<close>




section \<open>Segments read back\<close>

lemma split_on_no_sep: "l \<in> set (split_on sep s) \<Longrightarrow> sep \<notin> set l"
proof (induction s arbitrary: l)
  case Nil
  then show ?case by simp
next
  case (Cons c cs)
  show ?case
  proof (cases "c = sep")
    case True
    with Cons show ?thesis by auto
  next
    case False
    obtain x xs where sp: "split_on sep cs = x # xs"
      using split_on_nonempty [of sep cs] by (cases "split_on sep cs") auto
    with Cons False show ?thesis by auto
  qed
qed

lemma split_on_line:
  "sep \<notin> set l \<Longrightarrow> split_on sep (l @ sep # rest) = l # split_on sep rest"
  by (induction l) auto

lemma split_on_join:
  "\<forall>l\<in>set ls. sep \<notin> set l \<Longrightarrow>
   split_on sep (concat (map (\<lambda>l. l @ [sep]) ls)) = ls @ [[]]"
  by (induction ls) (simp_all add: split_on_line)

lemma csv_lines_render:
  assumes "newline \<notin> set h" and "\<forall>r\<in>set rows. newline \<notin> set r"
  shows "csv_lines (render h rows) = h # rows"
proof -
  have "\<forall>l\<in>set (h # rows). newline \<notin> set l" using assms by simp
  then have "split_on newline (concat (map (\<lambda>l. l @ [newline]) (h # rows))) = (h # rows) @ [[]]"
    by (rule split_on_join)
  then show ?thesis by (simp add: csv_lines_def render_def)
qed

lemma all_lines_no_newline: "l \<in> set (all_lines chunks) \<Longrightarrow> newline \<notin> set l"
  by (auto simp: all_lines_def dest: split_on_no_sep)

lemma segment_read_back:
  assumes "all_lines chunks \<noteq> []" and "i < length (segments_of m (data_rows chunks))"
  shows "csv_lines (render (header_of chunks) (segments_of m (data_rows chunks) ! i)) =
           header_of chunks # segments_of m (data_rows chunks) ! i"
proof (rule csv_lines_render)
  have a: "all_lines chunks = header_of chunks # data_rows chunks"
    using assms(1) by (simp add: header_of_def data_rows_def)
  then show "newline \<notin> set (header_of chunks)"
    using all_lines_no_newline [of "header_of chunks" chunks] by simp
  have "segments_of m (data_rows chunks) ! i \<in> set (segments_of m (data_rows chunks))"
    using assms(2) by (rule nth_mem)
  then have "set (segments_of m (data_rows chunks) ! i) \<subseteq> set (concat (segments_of m (data_rows chunks)))"
    by auto
  then have "set (segments_of m (data_rows chunks) ! i) \<subseteq> set (all_lines chunks)"
    using a by (auto simp: concat_segments)
  then show "\<forall>r\<in>set (segments_of m (data_rows chunks) ! i). newline \<notin> set r"
    using all_lines_no_newline by blast
qed

lemma concat_nth: "concat (map (\<lambda>i. xs ! i) [0..<length xs]) = concat xs"
  by (simp add: map_nth)

text \<open>
  C2.  Let the client be initialisable, the store's calls succeed, no chunk carry the
  error marker and the limit \<open>m\<close> be positive.  Every CSV upload, read back line by
  line, consists of the job's header line followed by at most \<open>m\<close> data rows; the rows
  of the uploads, in upload order, are exactly the data rows of the source, so each
  row lies whole in one segment; and a \<open>total_rows\<close> that is returned is the number of
  data rows, the header lines not counted.  It is returned whenever the job has one
  segment or the archive takes an entry for every segment.
\<close>

theorem segments_well_formed:
  assumes "healthy e" and "client_ready e mgr" and "0 < m"
    and "\<forall>c\<in>set chunks. \<not> contains ''__STREAM_ERROR__'' c"
    and "all_lines chunks \<noteq> []"
  shows "(\<forall>(name, text)\<in>set (segment_puts (stream_calls e mgr s chunks f t (Some m))).
            csv_lines text = header_of chunks # segment_rows text \<and>
            int (length (segment_rows text)) \<le> m) \<and>
         concat (map (\<lambda>(name, text). segment_rows text)
            (segment_puts (stream_calls e mgr s chunks f t (Some m)))) = data_rows chunks \<and>
         (\<forall>k. total_rows_of (stream_csv_to_minio e mgr s chunks f t (Some m)) = Some k \<longrightarrow>
              k = int (length (data_rows chunks))) \<and>
         (can_consolidate t f (length (segment_puts (stream_calls e mgr s chunks f t (Some m))))
            \<longrightarrow> total_rows_of (stream_csv_to_minio e mgr s chunks f t (Some m)) =
                   Some (int (length (data_rows chunks))))"
proof -
  define segs where "segs = segments_of (nat m) (data_rows chunks)"
  have puts: "segment_puts (stream_calls e mgr s chunks f t (Some m)) =
      map (\<lambda>i. (seg_name t f i, render (header_of chunks) (segs ! i))) [0..<length segs]"
    unfolding segs_def by (rule stream_segment_puts [OF assms])
  have readback: "csv_lines (render (header_of chunks) (segs ! i)) = header_of chunks # segs ! i"
    if "i < length segs" for i
    using that unfolding segs_def by (rule segment_read_back [OF assms(5)])
  have rows: "segment_rows (render (header_of chunks) (segs ! i)) = segs ! i"
    if "i < length segs" for i
    using readback [OF that] by (simp add: segment_rows_def)
  have bound: "int (length (segs ! i)) \<le> m" if "i < length segs" for i
  proof -
    have "segs ! i \<in> set segs" using that by simp
    then have "length (segs ! i) \<le> nat m"
      unfolding segs_def using assms(3) by (intro segments_bound) simp_all
    then show ?thesis using assms(3) by linarith
  qed
  have 1: "\<forall>(name, text)\<in>set (segment_puts (stream_calls e mgr s chunks f t (Some m))).
            csv_lines text = header_of chunks # segment_rows text \<and>
            int (length (segment_rows text)) \<le> m"
    unfolding puts using readback rows bound by auto
  have "map (\<lambda>(name, text). segment_rows text)
          (map (\<lambda>i. (seg_name t f i, render (header_of chunks) (segs ! i))) [0..<length segs]) =
        map (\<lambda>i. segs ! i) [0..<length segs]"
    using rows by simp
  then have 2: "concat (map (\<lambda>(name, text). segment_rows text)
            (segment_puts (stream_calls e mgr s chunks f t (Some m)))) = data_rows chunks"
    unfolding puts by (simp only: concat_nth) (simp add: segs_def concat_segments)
  have len: "length (segment_puts (stream_calls e mgr s chunks f t (Some m))) = length segs"
    unfolding puts by simp
  note total = stream_total_rows [OF assms, of s f t, folded segs_def]
  have 3: "\<forall>k. total_rows_of (stream_csv_to_minio e mgr s chunks f t (Some m)) = Some k \<longrightarrow>
              k = int (length (data_rows chunks))"
    unfolding total by (simp split: if_splits)
  have 4: "can_consolidate t f (length (segment_puts (stream_calls e mgr s chunks f t (Some m))))
            \<longrightarrow> total_rows_of (stream_csv_to_minio e mgr s chunks f t (Some m)) =
                   Some (int (length (data_rows chunks)))"
    unfolding total len by simp
  from 1 2 3 4 show ?thesis by blast
qed

theorem segments_well_formed_witness:
  "csv_lines demo_first_segment = ''a,b'' # segment_rows demo_first_segment \<and>
   length (segment_rows demo_first_segment) = 2 \<and>
   concat (map (\<lambda>(name, text). segment_rows text)
      (segment_puts (stream_calls demo_env new_manager empty_store demo_chunks ''f.csv''
          ''20250101_120000'' (Some 2)))) = [''1,2'', ''3,4'', ''5,6''] \<and>
   total_rows_of (stream_csv_to_minio demo_env new_manager empty_store demo_chunks ''f.csv''
       ''20250101_120000'' (Some 2)) = Some 3"
proof -
  have h1: "healthy demo_env" by (simp add: healthy_def demo_env_def)
  have h2: "client_ready demo_env new_manager" by code_simp
  have h3: "(0::int) < 2" by simp
  have h4: "\<forall>c\<in>set demo_chunks. \<not> contains ''__STREAM_ERROR__'' c" by code_simp
  have h5: "all_lines demo_chunks \<noteq> []" by code_simp
  have mem: "(''exports/20250101_120000_f.csv'', demo_first_segment) \<in>
      set (segment_puts (stream_calls demo_env new_manager empty_store demo_chunks ''f.csv''
          ''20250101_120000'' (Some 2)))"
    by code_simp
  have ok: "can_consolidate ''20250101_120000'' ''f.csv''
      (length (segment_puts (stream_calls demo_env new_manager empty_store demo_chunks ''f.csv''
          ''20250101_120000'' (Some 2))))"
    by code_simp
  have hd_eq: "header_of demo_chunks = ''a,b''" by code_simp
  have rows: "data_rows demo_chunks = [''1,2'', ''3,4'', ''5,6'']" by code_simp
  have len: "length (segment_rows demo_first_segment) = 2" by code_simp
  note th = segments_well_formed [OF h1 h2 h3 h4 h5, of empty_store "''f.csv''"
      "''20250101_120000''"]
  from th mem have "csv_lines demo_first_segment =
      header_of demo_chunks # segment_rows demo_first_segment" by blast
  moreover from th ok have "total_rows_of (stream_csv_to_minio demo_env new_manager
      empty_store demo_chunks ''f.csv'' ''20250101_120000'' (Some 2)) =
      Some (int (length (data_rows demo_chunks)))" by blast
  ultimately show ?thesis using th len by (simp add: hd_eq rows)
qed

section \<open>Object names of a job\<close>

text \<open>
  C5 as stated fails for a base filename that does not end in \<open>.csv\<close>: the later
  segments keep the whole filename and get \<open>_<index>.csv\<close> appended.
\<close>

theorem segment_naming_counterexample:
  "map fst (segment_puts (stream_calls demo_env new_manager empty_store demo_two_rows
      ''data.txt'' ''20250101_120000'' (Some 1))) =
     [''exports/20250101_120000_data.txt'', ''exports/20250101_120000_data.txt_2.csv'']"
  by code_simp

text \<open>
  C5 (amended).  Let the client be initialisable, the store's calls succeed, no chunk
  carry the error marker and the limit be positive.  For every base filename the CSV
  uploads are named, in order: \<open>exports/<timestamp>_<filename>\<close> for the first, the
  filename unchanged; and for the segment of index 2, 3, ... the prefix
  \<open>exports/<timestamp>_\<close>, the filename with every \<open>.csv\<close> in it removed, \<open>_<index>\<close>
  and \<open>.csv\<close>.  All names start with the job's prefix \<open>exports/<timestamp>_\<close>.  For
  a filename \<open><stem>.csv\<close> whose stem does not contain \<open>.csv\<close> the later names are
  \<open>exports/<timestamp>_<stem>_<index>.csv\<close>.
\<close>

theorem segment_naming:
  assumes "healthy e" and "client_ready e mgr" and "0 < m"
    and "\<forall>c\<in>set chunks. \<not> contains ''__STREAM_ERROR__'' c"
    and "all_lines chunks \<noteq> []"
  shows "map fst (segment_puts (stream_calls e mgr s chunks f t (Some m))) =
           map (\<lambda>k. job_prefix t @
                    (if k = 0 then f
                     else str_replace ''.csv'' [] f @ ''_'' @ str_int (int k + 1) @ ''.csv''))
             [0..<length (segment_puts (stream_calls e mgr s chunks f t (Some m)))] \<and>
         (\<forall>name\<in>set (map fst (segment_puts (stream_calls e mgr s chunks f t (Some m)))).
            prefix (job_prefix t) name) \<and>
         (\<forall>stem. f = stem @ ''.csv'' \<and> \<not> contains ''.csv'' stem \<longrightarrow>
            map fst (segment_puts (stream_calls e mgr s chunks f t (Some m))) =
              map (\<lambda>k. job_prefix t @
                       (if k = 0 then stem @ ''.csv''
                        else stem @ ''_'' @ str_int (int k + 1) @ ''.csv''))
                [0..<length (segment_puts (stream_calls e mgr s chunks f t (Some m)))])"
proof -
  have n: "seg_name t f k =
           job_prefix t @ (if k = 0 then f
                           else str_replace ''.csv'' [] f @ ''_'' @ str_int (int k + 1) @ ''.csv'')"
    for k
    by (simp add: seg_name_def job_prefix_def)
  have 1: "map fst (segment_puts (stream_calls e mgr s chunks f t (Some m))) =
           map (\<lambda>k. job_prefix t @
                    (if k = 0 then f
                     else str_replace ''.csv'' [] f @ ''_'' @ str_int (int k + 1) @ ''.csv''))
             [0..<length (segment_puts (stream_calls e mgr s chunks f t (Some m)))]"
    unfolding stream_segment_puts [OF assms(1-5)]
    by (simp add: n comp_def)
  have 2: "\<forall>name\<in>set (map fst (segment_puts (stream_calls e mgr s chunks f t (Some m)))).
            prefix (job_prefix t) name"
    unfolding stream_segment_puts [OF assms(1-5)]
    by (auto simp: seg_name_prefix)
  have 3: "map fst (segment_puts (stream_calls e mgr s chunks f t (Some m))) =
              map (\<lambda>k. job_prefix t @
                       (if k = 0 then stem @ ''.csv''
                        else stem @ ''_'' @ str_int (int k + 1) @ ''.csv''))
                [0..<length (segment_puts (stream_calls e mgr s chunks f t (Some m)))]"
    if "f = stem @ ''.csv''" and "\<not> contains ''.csv'' stem" for stem
  proof -
    have r: "str_replace ''.csv'' [] (stem @ ''.csv'') = stem"
      using replace_only_suffix [OF that(2)] by simp
    show ?thesis
      by (subst 1) (simp add: r that(1))
  qed
  from 1 2 3 show ?thesis by blast
qed

theorem segment_naming_witness:
  "map fst (segment_puts (stream_calls demo_env new_manager empty_store demo_chunks
      ''f.csv'' ''20250101_120000'' (Some 1))) =
     [''exports/20250101_120000_f.csv'', ''exports/20250101_120000_f_2.csv'',
      ''exports/20250101_120000_f_3.csv'']"
proof -
  have h1: "healthy demo_env" by (simp add: healthy_def demo_env_def)
  have h2: "client_ready demo_env new_manager" by code_simp
  have h3: "(0::int) < 1" by simp
  have h4: "\<forall>c\<in>set demo_chunks. \<not> contains ''__STREAM_ERROR__'' c" by code_simp
  have h5: "all_lines demo_chunks \<noteq> []" by code_simp
  have h6: "\<not> contains ''.csv'' ''f''" by code_simp
  have f: "''f.csv'' = ''f'' @ ''.csv''" by simp
  have l: "length (segment_puts (stream_calls demo_env new_manager empty_store demo_chunks
      ''f.csv'' ''20250101_120000'' (Some 1))) = 3" by code_simp
  have v: "map (\<lambda>k. job_prefix ''20250101_120000'' @
                    (if k = 0 then ''f'' @ ''.csv''
                     else ''f'' @ ''_'' @ str_int (int k + 1) @ ''.csv'')) [0..<3] =
     [''exports/20250101_120000_f.csv'', ''exports/20250101_120000_f_2.csv'',
      ''exports/20250101_120000_f_3.csv'']" by code_simp
  note th = segment_naming [OF h1 h2 h3 h4 h5, of empty_store "''f.csv''" "''20250101_120000''"]
  from th f h6 have "map fst (segment_puts (stream_calls demo_env new_manager empty_store
      demo_chunks ''f.csv'' ''20250101_120000'' (Some 1))) =
     map (\<lambda>k. job_prefix ''20250101_120000'' @
                    (if k = 0 then ''f'' @ ''.csv''
                     else ''f'' @ ''_'' @ str_int (int k + 1) @ ''.csv''))
       [0..<length (segment_puts (stream_calls demo_env new_manager empty_store
      demo_chunks ''f.csv'' ''20250101_120000'' (Some 1)))]"
    by blast
  then show ?thesis unfolding l v .
qed

section \<open>What a job leaves in the store\<close>

lemma filter_update_fresh:
  "\<forall>x\<in>set al. \<not> P (fst x) \<Longrightarrow> P k \<Longrightarrow>
   filter (\<lambda>x. P (fst x)) (AList.update k v al) = [(k, v)]"
  by (induction al) auto

lemma job_objects_alt:
  "job_objects t s = filter (\<lambda>x. prefix (job_prefix t) (fst x)) (objects s)"
  by (simp add: job_objects_def case_prod_unfold)

lemma zip_name_prefix: "prefix (job_prefix t) (zip_name t f)"
  by (simp add: job_prefix_def zip_name_def)

lemma single_segment: "length (segments_of m rows) = 1 \<Longrightarrow> segments_of m rows = [rows]"
proof -
  assume "length (segments_of m rows) = 1"
  then obtain seg where s: "segments_of m rows = [seg]"
    by (cases "segments_of m rows") auto
  have "concat (segments_of m rows) = rows" by (rule concat_segments)
  with s show ?thesis by simp
qed

lemma job_objects_single:
  assumes "job_objects t s = []"
  shows "job_objects t (store_segments e t f h 0 [seg] s) =
           [(seg_name t f 0, csv_object e (seg_name t f 0) (render h seg))]"
proof -
  have "\<forall>x\<in>set (objects s). \<not> prefix (job_prefix t) (fst x)"
    using assms by (simp add: job_objects_alt filter_empty_conv)
  then show ?thesis
    unfolding job_objects_alt
    by (simp add: stored_def filter_update_fresh seg_name_prefix)
qed

lemma job_objects_consolidated:
  assumes "job_objects t s = []"
  shows "job_objects t (consolidated e t f h segs (store_segments e t f h 0 segs s)) =
           [(zip_name t f, zip_object e (zip_name t f) (archive_entries t f h segs))]"
proof -
  define s1 where "s1 = store_segments e t f h 0 segs s"
  have old: "\<forall>x\<in>set (objects s). \<not> prefix (job_prefix t) (fst x)"
    using assms by (simp add: job_objects_alt filter_empty_conv)
  have "\<forall>x\<in>set (fold AList.delete (segment_names t f (length segs)) (objects s1)).
          \<not> prefix (job_prefix t) (fst x)"
  proof
    fix x
    assume "x \<in> set (fold AList.delete (segment_names t f (length segs)) (objects s1))"
    then have x: "x \<in> set (objects s1)" "fst x \<notin> set (segment_names t f (length segs))"
      by (simp_all add: fold_delete_filter)
    from x(1) have "fst x \<in> fst ` set (objects s1)" by (rule imageI)
    then have "fst x \<in> fst ` set (objects s) \<union> seg_name t f ` {0..<0 + length segs}"
      unfolding s1_def store_segments_keys .
    with x(2) have "fst x \<in> fst ` set (objects s)"
      by (auto simp: segment_names_def)
    then obtain y where "y \<in> set (objects s)" "fst y = fst x" by auto
    with old show "\<not> prefix (job_prefix t) (fst x)" by metis
  qed
  then show ?thesis
    unfolding job_objects_alt s1_def [symmetric]
    by (simp add: consolidated_def filter_update_fresh zip_name_prefix)
qed

lemma archive_puts_append: "archive_puts (xs @ ys) = archive_puts xs @ archive_puts ys"
  by (induction xs rule: archive_puts.induct) auto

lemma archive_puts_uploads:
  "archive_puts (map (\<lambda>i. Put (name i) (Bytes (text i))) is) = []"
  by (induction "is") auto

lemma archive_puts_moves: "archive_puts (concat (map (\<lambda>n. [Get n, Remove n]) ns)) = []"
  by (induction ns) auto

lemma run_store_archives:
  "archive_puts (new_calls s (run_store e t f h segs s)) =
     (if 1 < length segs then [zip_name t f] else [])"
  by (simp add: run_store_def consolidated_def new_calls_def store_segments_trace
      archive_puts_append archive_puts_uploads archive_puts_moves)

lemma map_of_fold_delete:
  "map_of (fold AList.delete ks al) k = (if k \<in> set ks then None else map_of al k)"
  by (induction ks arbitrary: al) (auto simp: delete_conv')

lemma returned_run:
  assumes "healthy e" and "client_ready e mgr" and "0 < m"
    and "\<forall>c\<in>set chunks. \<not> contains ''__STREAM_ERROR__'' c"
    and "all_lines chunks \<noteq> []"
    and "file_count_of (stream_csv_to_minio e mgr s chunks f t (Some m)) = Some k"
  shows "can_consolidate t f (length (segments_of (nat m) (data_rows chunks)))"
  using assms(6) unfolding stream_file_count [OF assms(1-5)] by (simp split: if_splits)

text \<open>
  C6 as stated fails when two jobs run within the same second: they share the prefix
  \<open>exports/<timestamp>_\<close>, so after the second job two archives lie under it.
\<close>

theorem export_objects_counterexample:
  "file_count_of (stream_csv_to_minio demo_env new_manager first_job_store demo_chunks
      ''g.csv'' ''20250101_120000'' (Some 2)) = Some 2 \<and>
   map (\<lambda>(name, obj). (name, is_archive obj))
     (job_objects ''20250101_120000''
        (stream_store demo_env new_manager first_job_store demo_chunks ''g.csv''
           ''20250101_120000'' (Some 2))) =
     [(''exports/20250101_120000_f.zip'', True), (''exports/20250101_120000_g.zip'', True)]"
  by code_simp

text \<open>
  C6 (amended).  Let the client be initialisable, the store's calls succeed, no chunk
  carry the error marker, the limit be positive, and the run return the file count
  \<open>k\<close>.  Then \<open>k \<ge> 1\<close>.  With \<open>k = 1\<close> the object name returned is
  \<open>exports/<timestamp>_<filename>\<close>, the object stored there is the CSV segment, and
  the run uploads no archive.  With \<open>k > 1\<close> the object name returned is the
  archive's, the object stored there is an archive, it is the one archive the run
  uploads, and no object is left under the name of any segment (unless the archive
  itself has that name).  If no object lay under the job's prefix before the run,
  exactly one lies there afterwards: the object returned.
\<close>

theorem export_objects:
  assumes "healthy e" and "client_ready e mgr" and "0 < m"
    and "\<forall>c\<in>set chunks. \<not> contains ''__STREAM_ERROR__'' c"
    and "all_lines chunks \<noteq> []"
    and "file_count_of (stream_csv_to_minio e mgr s chunks f t (Some m)) = Some k"
  shows "1 \<le> k \<and>
         object_name_of (stream_csv_to_minio e mgr s chunks f t (Some m)) =
           Some (if 1 < k then zip_name t f else job_prefix t @ f) \<and>
         map_option is_archive
           (map_of (objects (stream_store e mgr s chunks f t (Some m)))
              (if 1 < k then zip_name t f else job_prefix t @ f)) = Some (1 < k) \<and>
         archive_puts (stream_calls e mgr s chunks f t (Some m)) =
           (if 1 < k then [zip_name t f] else []) \<and>
         (\<forall>name\<in>set (map fst (segment_puts (stream_calls e mgr s chunks f t (Some m)))).
            name = (if 1 < k then zip_name t f else job_prefix t @ f) \<or>
            map_of (objects (stream_store e mgr s chunks f t (Some m))) name = None) \<and>
         (job_objects t s = [] \<longrightarrow>
            map fst (job_objects t (stream_store e mgr s chunks f t (Some m))) =
              [if 1 < k then zip_name t f else job_prefix t @ f])"
proof -
  define segs where "segs = segments_of (nat m) (data_rows chunks)"
  define h where "h = header_of chunks"
  define s1 where "s1 = store_segments e t f h 0 segs s"
  note can = returned_run [OF assms]
  note run = stream_run_int [OF assms(1-5) can, of s, folded segs_def h_def]
  note puts = stream_segment_puts [OF assms(1-5), of s f t, folded segs_def h_def]
  have k: "k = int (length segs)"
    using assms(6) by (simp add: file_count_of_def run)
  have ne: "segs \<noteq> []" unfolding segs_def by (rule segments_nonempty)
  have n0: "seg_name t f 0 = job_prefix t @ f" by (simp add: seg_name_def job_prefix_def)
  have st: "stream_store e mgr s chunks f t (Some m) = run_store e t f h segs s"
    by (simp add: stream_store_def run)
  have calls: "stream_calls e mgr s chunks f t (Some m) =
                 new_calls s (run_store e t f h segs s)"
    by (simp add: stream_calls_def run)
  have 1: "1 \<le> k" using k ne by (cases segs) auto
  have 4: "archive_puts (stream_calls e mgr s chunks f t (Some m)) =
             (if 1 < k then [zip_name t f] else [])"
    unfolding calls run_store_archives using k by simp
  show ?thesis
  proof (cases "1 < length segs")
    case True
    then have big: "1 < k" using k by simp
    have s': "run_store e t f h segs s = consolidated e t f h segs s1"
      using True by (simp add: run_store_def s1_def)
    have 2: "object_name_of (stream_csv_to_minio e mgr s chunks f t (Some m)) =
               Some (zip_name t f)"
      using True by (simp add: object_name_of_def run)
    have 3: "map_option is_archive
               (map_of (objects (stream_store e mgr s chunks f t (Some m))) (zip_name t f)) =
             Some True"
      by (simp add: st s' consolidated_def update_conv' is_archive_def zip_object_def)
    have 5: "name = zip_name t f \<or>
             map_of (objects (stream_store e mgr s chunks f t (Some m))) name = None"
      if "name \<in> set (map fst (segment_puts (stream_calls e mgr s chunks f t (Some m))))"
      for name
    proof -
      from that have "name \<in> set (segment_names t f (length segs))"
        unfolding puts by (auto simp: segment_names_def)
      then show ?thesis
        by (simp add: st s' consolidated_def update_conv' map_of_fold_delete)
    qed
    have 6: "map fst (job_objects t (stream_store e mgr s chunks f t (Some m))) =
               [zip_name t f]" if "job_objects t s = []"
      unfolding st s' s1_def
      by (simp add: job_objects_consolidated [OF that])
    from 1 2 3 4 5 6 big show ?thesis by simp
  next
    case False
    with ne have one: "length segs = 1" by (cases segs) auto
    then have small: "\<not> 1 < k" using k by simp
    have sg: "segs = [data_rows chunks]"
      using one unfolding segs_def by (rule single_segment)
    have s': "run_store e t f h segs s = s1"
      using one by (simp add: run_store_def s1_def)
    have 2: "object_name_of (stream_csv_to_minio e mgr s chunks f t (Some m)) =
               Some (job_prefix t @ f)"
      using one by (simp add: object_name_of_def run n0)
    have look: "map_of (objects s1) (seg_name t f 0) =
                  Some (csv_object e (seg_name t f 0) (render h (segs ! 0)))"
      unfolding s1_def using store_segments_lookup [of 0 segs e t f h 0 s] one by simp
    have 3: "map_option is_archive
               (map_of (objects (stream_store e mgr s chunks f t (Some m)))
                  (job_prefix t @ f)) = Some False"
      using look by (simp add: st s' n0 is_archive_def csv_object_def)
    have 5: "name = job_prefix t @ f"
      if "name \<in> set (map fst (segment_puts (stream_calls e mgr s chunks f t (Some m))))"
      for name
      using that unfolding puts one by (simp add: n0)
    have 6: "map fst (job_objects t (stream_store e mgr s chunks f t (Some m))) =
               [job_prefix t @ f]" if "job_objects t s = []"
    proof -
      have "stream_store e mgr s chunks f t (Some m) =
              store_segments e t f h 0 [data_rows chunks] s"
        using st s' sg by (simp add: s1_def)
      then show ?thesis
        by (simp only: job_objects_single [OF that]) (simp add: n0)
    qed
    from 1 2 3 4 5 6 small show ?thesis by simp
  qed
qed

theorem export_objects_witness:
  "object_name_of (stream_csv_to_minio demo_env new_manager empty_store demo_chunks ''f.csv''
      ''20250101_120000'' (Some 2)) = Some ''exports/20250101_120000_f.zip'' \<and>
   map_option is_archive
     (map_of (objects (stream_store demo_env new_manager empty_store demo_chunks ''f.csv''
        ''20250101_120000'' (Some 2))) ''exports/20250101_120000_f.zip'') = Some True \<and>
   archive_puts (stream_calls demo_env new_manager empty_store demo_chunks ''f.csv''
      ''20250101_120000'' (Some 2)) = [''exports/20250101_120000_f.zip''] \<and>
   map_of (objects (stream_store demo_env new_manager empty_store demo_chunks ''f.csv''
      ''20250101_120000'' (Some 2))) ''exports/20250101_120000_f_2.csv'' = None \<and>
   map fst (job_objects ''20250101_120000''
      (stream_store demo_env new_manager empty_store demo_chunks ''f.csv''
         ''20250101_120000'' (Some 2))) = [''exports/20250101_120000_f.zip'']"
proof -
  have h1: "healthy demo_env" by (simp add: healthy_def demo_env_def)
  have h2: "client_ready demo_env new_manager" by code_simp
  have h3: "(0::int) < 2" by simp
  have h4: "\<forall>c\<in>set demo_chunks. \<not> contains ''__STREAM_ERROR__'' c" by code_simp
  have h5: "all_lines demo_chunks \<noteq> []" by code_simp
  have h6: "file_count_of (stream_csv_to_minio demo_env new_manager empty_store demo_chunks
      ''f.csv'' ''20250101_120000'' (Some 2)) = Some 2" by code_simp
  have e: "job_objects ''20250101_120000'' empty_store = []" by code_simp
  have mem: "''exports/20250101_120000_f_2.csv'' \<in>
      set (map fst (segment_puts (stream_calls demo_env new_manager empty_store demo_chunks
         ''f.csv'' ''20250101_120000'' (Some 2))))" by code_simp
  have z: "zip_name ''20250101_120000'' ''f.csv'' = ''exports/20250101_120000_f.zip''"
    by code_simp
  note th = export_objects [OF h1 h2 h3 h4 h5 h6, unfolded z]
  note q = th [THEN conjunct2, THEN conjunct2, THEN conjunct2, THEN conjunct2, THEN conjunct1]
  from bspec [OF q mem] have gone: "map_of (objects (stream_store demo_env new_manager empty_store demo_chunks
      ''f.csv'' ''20250101_120000'' (Some 2))) ''exports/20250101_120000_f_2.csv'' = None"
    by simp
  from th e gone show ?thesis by simp
qed

section \<open>The archive holds the rows\<close>

lemma split_on_chars_of: "l \<in> set (split_on sep s) \<Longrightarrow> set l \<subseteq> set s"
proof (induction s arbitrary: l)
  case Nil
  then show ?case by simp
next
  case (Cons c cs)
  show ?case
  proof (cases "c = sep")
    case True
    with Cons show ?thesis by auto
  next
    case False
    obtain x xs where sp: "split_on sep cs = x # xs"
      using split_on_nonempty [of sep cs] by (cases "split_on sep cs") auto
    with Cons False show ?thesis by fastforce
  qed
qed

lemma bare_name_chars: "set (bare_name n) \<subseteq> set n"
proof -
  have "last (split_on CHR ''/'' n) \<in> set (split_on CHR ''/'' n)"
    using split_on_nonempty by (rule last_in_set)
  then show ?thesis unfolding bare_name_def by (rule split_on_chars_of)
qed

lemma arcname_bare: "CHR 0x00 \<notin> set n \<Longrightarrow> arcname n = bare_name n"
  using bare_name_chars [of n] by (auto simp: arcname_def takeWhile_eq_all_conv)

lemma str_replace_chars: "set (str_replace old new s) \<subseteq> set new \<union> set s"
proof (induction old new s rule: str_replace.induct)
  case (1 old new)
  then show ?case by simp
next
  case (2 old new c cs)
  show ?case
  proof (cases "old \<noteq> [] \<and> prefix old (c # cs)")
    case True
    have "set (drop (length old) (c # cs)) \<subseteq> set (c # cs)" by (rule set_drop_subset)
    with 2(1) [OF True] True show ?thesis by auto
  next
    case False
    with 2(2) [OF False] show ?thesis by auto
  qed
qed

lemma str_nat_chars: "set (str_nat n) \<subseteq> set ''0123456789''"
proof (induction n rule: str_nat.induct)
  case (1 n)
  have d: "''0123456789'' ! k \<in> set ''0123456789''" if "k < 10" for k
    using that by (intro nth_mem) simp
  show ?case
  proof (cases "n < 10")
    case True
    with d [of n] show ?thesis by (subst str_nat.simps) simp
  next
    case False
    have "n mod 10 < 10" by simp
    with d [of "n mod 10"] 1 [OF False] False show ?thesis
      by (subst str_nat.simps) simp
  qed
qed

lemma seg_name_no_nul:
  assumes "CHR 0x00 \<notin> set t" and "CHR 0x00 \<notin> set f"
  shows "CHR 0x00 \<notin> set (seg_name t f k)"
proof -
  have r: "CHR 0x00 \<notin> set (str_replace ''.csv'' [] f)"
    using str_replace_chars [of "''.csv''" "[]" f] assms(2) by auto
  have n: "CHR 0x00 \<notin> set (str_nat (Suc k))"
    using str_nat_chars [of "Suc k"] by auto
  show ?thesis
    using assms r n by (simp add: seg_name_def str_int_index)
qed

text \<open>
  C7 as stated fails for a base filename that contains a NUL character: the archive
  cuts each entry name at its first NUL, so the entries are not keyed by the segments'
  bare filenames (here both entries get the same key).
\<close>

theorem archive_round_trip_counterexample:
  "file_count_of (stream_csv_to_minio demo_env new_manager empty_store demo_chunks
      nul_filename ''20250101_120000'' (Some 2)) = Some 2 \<and>
   map fst (archive_of (stream_store demo_env new_manager empty_store demo_chunks
      nul_filename ''20250101_120000'' (Some 2))
        (zip_name ''20250101_120000'' nul_filename)) =
     [''20250101_120000_a'', ''20250101_120000_a''] \<and>
   map (\<lambda>(name, text). bare_name name)
     (segment_puts (stream_calls demo_env new_manager empty_store demo_chunks
        nul_filename ''20250101_120000'' (Some 2))) =
     [''20250101_120000_a'' @ [CHR 0x00] @ ''.csv'',
      ''20250101_120000_a'' @ [CHR 0x00] @ ''_2.csv'']"
  by code_simp

text \<open>
  C7 (amended).  Let the client be initialisable, the store's calls succeed, no chunk
  carry the error marker, the limit be positive, and the run return a file count
  \<open>k > 1\<close>.  Then the object returned is the archive; unzipped, it has \<open>k\<close> entries,
  keyed in order by the uploaded segments' object names with the directory part
  removed and cut at the first NUL character; when neither the timestamp nor the base
  filename contains a NUL character, the keys are the segments' bare filenames; and
  the rows of the entries, in entry order and without each entry's header line, are
  the data rows of the source in their order.
\<close>

theorem archive_round_trip:
  assumes "healthy e" and "client_ready e mgr" and "0 < m"
    and "\<forall>c\<in>set chunks. \<not> contains ''__STREAM_ERROR__'' c"
    and "all_lines chunks \<noteq> []"
    and "file_count_of (stream_csv_to_minio e mgr s chunks f t (Some m)) = Some k"
    and "1 < k"
  shows "object_name_of (stream_csv_to_minio e mgr s chunks f t (Some m)) =
           Some (zip_name t f) \<and>
         int (length (archive_of (stream_store e mgr s chunks f t (Some m)) (zip_name t f))) = k \<and>
         map fst (archive_of (stream_store e mgr s chunks f t (Some m)) (zip_name t f)) =
           map (\<lambda>(name, text). arcname name)
             (segment_puts (stream_calls e mgr s chunks f t (Some m))) \<and>
         (CHR 0x00 \<notin> set t \<and> CHR 0x00 \<notin> set f \<longrightarrow>
            map fst (archive_of (stream_store e mgr s chunks f t (Some m)) (zip_name t f)) =
              map (\<lambda>(name, text). bare_name name)
                (segment_puts (stream_calls e mgr s chunks f t (Some m)))) \<and>
         unzipped_rows (archive_of (stream_store e mgr s chunks f t (Some m)) (zip_name t f)) =
           data_rows chunks"
proof -
  define segs where "segs = segments_of (nat m) (data_rows chunks)"
  define h where "h = header_of chunks"
  note can = returned_run [OF assms(1-6)]
  note run = stream_run_int [OF assms(1-5) can, of s, folded segs_def h_def]
  note puts = stream_segment_puts [OF assms(1-5), of s f t, folded segs_def h_def]
  have k: "k = int (length segs)"
    using assms(6) by (simp add: file_count_of_def run)
  with assms(7) have multi: "1 < length segs" by simp
  have ar: "archive_of (stream_store e mgr s chunks f t (Some m)) (zip_name t f) =
              archive_entries t f h segs"
    using multi
    by (simp add: archive_of_def stream_store_def run run_store_def consolidated_def
        update_conv' zip_object_def)
  have rows: "segment_rows (render h (segs ! i)) = segs ! i" if "i < length segs" for i
    using segment_read_back [OF assms(5), of i "nat m"] that
    by (simp add: segment_rows_def segs_def h_def)
  have "map (\<lambda>(key, data). case data of Bytes text \<Rightarrow> segment_rows text | Zip es \<Rightarrow> [])
          (archive_entries t f h segs) = map (\<lambda>i. segs ! i) [0..<length segs]"
    using rows by (simp add: archive_entries_def)
  then have un: "unzipped_rows (archive_entries t f h segs) = data_rows chunks"
    unfolding unzipped_rows_def by (simp only: concat_nth) (simp add: segs_def concat_segments)
  have keys: "map fst (archive_entries t f h segs) =
      map (\<lambda>(name, text). arcname name)
        (map (\<lambda>i. (seg_name t f i, render h (segs ! i))) [0..<length segs])"
    by (simp add: archive_entries_def comp_def)
  have bare: "map fst (archive_entries t f h segs) =
      map (\<lambda>(name, text). bare_name name)
        (map (\<lambda>i. (seg_name t f i, render h (segs ! i))) [0..<length segs])"
    if "CHR 0x00 \<notin> set t" and "CHR 0x00 \<notin> set f"
    using arcname_bare [OF seg_name_no_nul [OF that]]
    by (simp add: archive_entries_def comp_def)
  have len: "length (archive_entries t f h segs) = length segs"
    by (simp add: archive_entries_def)
  have 1: "object_name_of (stream_csv_to_minio e mgr s chunks f t (Some m)) =
             Some (zip_name t f)"
    using multi by (simp add: object_name_of_def run)
  have 2: "int (length (archive_of (stream_store e mgr s chunks f t (Some m))
             (zip_name t f))) = k"
    by (simp add: ar len k)
  have 3: "map fst (archive_of (stream_store e mgr s chunks f t (Some m)) (zip_name t f)) =
           map (\<lambda>(name, text). arcname name)
             (segment_puts (stream_calls e mgr s chunks f t (Some m)))"
    unfolding ar puts by (rule keys)
  have 4: "CHR 0x00 \<notin> set t \<and> CHR 0x00 \<notin> set f \<longrightarrow>
            map fst (archive_of (stream_store e mgr s chunks f t (Some m)) (zip_name t f)) =
              map (\<lambda>(name, text). bare_name name)
                (segment_puts (stream_calls e mgr s chunks f t (Some m)))"
    unfolding ar puts using bare by blast
  have 5: "unzipped_rows (archive_of (stream_store e mgr s chunks f t (Some m))
             (zip_name t f)) = data_rows chunks"
    unfolding ar by (rule un)
  from 1 2 3 4 5 show ?thesis by blast
qed

theorem archive_round_trip_witness:
  "object_name_of (stream_csv_to_minio demo_env new_manager empty_store demo_chunks ''f.csv''
      ''20250101_120000'' (Some 2)) = Some ''exports/20250101_120000_f.zip'' \<and>
   length (archive_of (stream_store demo_env new_manager empty_store demo_chunks ''f.csv''
      ''20250101_120000'' (Some 2)) ''exports/20250101_120000_f.zip'') = 2 \<and>
   map fst (archive_of (stream_store demo_env new_manager empty_store demo_chunks ''f.csv''
      ''20250101_120000'' (Some 2)) ''exports/20250101_120000_f.zip'') =
     [''20250101_120000_f.csv'', ''20250101_120000_f_2.csv''] \<and>
   unzipped_rows (archive_of (stream_store demo_env new_manager empty_store demo_chunks
      ''f.csv'' ''20250101_120000'' (Some 2)) ''exports/20250101_120000_f.zip'') =
     [''1,2'', ''3,4'', ''5,6'']"
proof -
  have h1: "healthy demo_env" by (simp add: healthy_def demo_env_def)
  have h2: "client_ready demo_env new_manager" by code_simp
  have h3: "(0::int) < 2" by simp
  have h4: "\<forall>c\<in>set demo_chunks. \<not> contains ''__STREAM_ERROR__'' c" by code_simp
  have h5: "all_lines demo_chunks \<noteq> []" by code_simp
  have h6: "file_count_of (stream_csv_to_minio demo_env new_manager empty_store demo_chunks
      ''f.csv'' ''20250101_120000'' (Some 2)) = Some 2" by code_simp
  have h7: "(1::int) < 2" by simp
  have nt: "CHR 0x00 \<notin> set ''20250101_120000''" by simp
  have nf: "CHR 0x00 \<notin> set ''f.csv''" by simp
  have z: "zip_name ''20250101_120000'' ''f.csv'' = ''exports/20250101_120000_f.zip''"
    by code_simp
  have p: "map (\<lambda>(name, text). bare_name name)
      (segment_puts (stream_calls demo_env new_manager empty_store demo_chunks ''f.csv''
         ''20250101_120000'' (Some 2))) =
     [''20250101_120000_f.csv'', ''20250101_120000_f_2.csv'']" by code_simp
  have r: "data_rows demo_chunks = [''1,2'', ''3,4'', ''5,6'']" by code_simp
  note th = archive_round_trip [OF h1 h2 h3 h4 h5 h6 h7, unfolded z p r]
  from th nt nf have "map fst (archive_of (stream_store demo_env new_manager empty_store
      demo_chunks ''f.csv'' ''20250101_120000'' (Some 2)) ''exports/20250101_120000_f.zip'') =
     [''20250101_120000_f.csv'', ''20250101_120000_f_2.csv'']" by blast
  with th show ?thesis by simp
qed

section \<open>A fresh manager reads an empty configuration\<close>

lemma map_render_nth:
  "map (\<lambda>i. render h (segs ! i)) [0..<length segs] = map (render h) segs"
  by (rule nth_equalityI) simp_all

text \<open>
  C10.  The manager's constructor leaves its configuration dictionary empty, and only
  \<open>_initialize_client\<close> fills it.  So on a fresh manager \<open>get_max_rows_per_file\<close>
  is 1,000,000 whatever the application configures; \<open>stream_csv_to_minio\<close> called
  without a limit on a fresh manager behaves as with the limit 1,000,000; and when
  the client is initialisable, the store's calls succeed and no chunk carries the
  error marker, the CSV uploads of such a run are the header line followed by the data
  rows cut into runs of 1,000,000, whatever limit the application configures.
\<close>

theorem fresh_manager_default_max_rows:
  "get_max_rows_per_file new_manager = 1000000 \<and>
   stream_csv_to_minio e new_manager s chunks filename timestamp None =
     stream_csv_to_minio e new_manager s chunks filename timestamp (Some 1000000) \<and>
   (healthy e \<and> config_ok e \<and> (\<forall>c\<in>set chunks. \<not> contains ''__STREAM_ERROR__'' c) \<and>
    all_lines chunks \<noteq> [] \<longrightarrow>
      map snd (segment_puts (stream_calls e new_manager s chunks filename timestamp None)) =
        map (render (header_of chunks)) (segments_of 1000000 (data_rows chunks)))"
proof -
  have 1: "get_max_rows_per_file new_manager = 1000000"
    by (simp add: get_max_rows_per_file_def new_manager_def empty_config_def)
  have 2: "stream_csv_to_minio e new_manager s chunks filename timestamp None =
     stream_csv_to_minio e new_manager s chunks filename timestamp (Some 1000000)"
    by (simp add: stream_csv_to_minio_def 1)
  have 3: "map snd (segment_puts (stream_calls e new_manager s chunks filename timestamp None)) =
        map (render (header_of chunks)) (segments_of 1000000 (data_rows chunks))"
    if "healthy e" and "config_ok e"
      and "\<forall>c\<in>set chunks. \<not> contains ''__STREAM_ERROR__'' c" and "all_lines chunks \<noteq> []"
  proof -
    have r: "client_ready e new_manager" using that(2) by (simp add: client_ready_def)
    have c: "stream_calls e new_manager s chunks filename timestamp None =
             stream_calls e new_manager s chunks filename timestamp (Some 1000000)"
      by (simp add: stream_calls_def 2)
    have p: "(0::int) < 1000000" by simp
    have n: "nat 1000000 = 1000000" by simp
    show ?thesis
      unfolding c stream_segment_puts [OF that(1) r p that(3) that(4)] n
      by (simp add: comp_def map_render_nth)
  qed
  from 1 2 3 show ?thesis by blast
qed

theorem fresh_manager_default_max_rows_witness:
  "cfg_max_rows_per_file (the (app_config small_limit_env)) = Some 2 \<and>
   map snd (segment_puts (stream_calls small_limit_env new_manager empty_store demo_chunks
      ''f.csv'' ''20250101_120000'' None)) =
     [''a,b'' @ [newline] @ ''1,2'' @ [newline] @ ''3,4'' @ [newline] @ ''5,6'' @ [newline]]"
proof -
  have h1: "healthy small_limit_env"
    by (simp add: healthy_def small_limit_env_def demo_env_def)
  have h2: "config_ok small_limit_env" by code_simp
  have h4: "\<forall>c\<in>set demo_chunks. \<not> contains ''__STREAM_ERROR__'' c" by code_simp
  have h5: "all_lines demo_chunks \<noteq> []" by code_simp
  have cfg: "cfg_max_rows_per_file (the (app_config small_limit_env)) = Some 2"
    by (simp add: small_limit_env_def demo_env_def demo_config_def)
  have rows: "data_rows demo_chunks = [''1,2'', ''3,4'', ''5,6'']" by code_simp
  have hd_eq: "header_of demo_chunks = ''a,b''" by code_simp
  have segs: "segments_of 1000000 [''1,2'', ''3,4'', ''5,6''] = [[''1,2'', ''3,4'', ''5,6'']]"
    by (rule segments_small) simp
  have rendered: "render ''a,b'' [''1,2'', ''3,4'', ''5,6''] =
      ''a,b'' @ [newline] @ ''1,2'' @ [newline] @ ''3,4'' @ [newline] @ ''5,6'' @ [newline]"
    by (simp add: render_def)
  note th = fresh_manager_default_max_rows [of small_limit_env empty_store demo_chunks
      "''f.csv''" "''20250101_120000''"]
  from th h1 h2 h4 h5 have "map snd (segment_puts (stream_calls small_limit_env new_manager
      empty_store demo_chunks ''f.csv'' ''20250101_120000'' None)) =
        map (render (header_of demo_chunks)) (segments_of 1000000 (data_rows demo_chunks))"
    by blast
  then show ?thesis
    unfolding rows hd_eq segs using cfg rendered by simp
qed

end
